theory Spec2Isabelle
  imports Main "HOL-Library.Word" "HOL-Library.Multiset"
begin

unbundle bit_operations_syntax

section \<open>The fixer of go/fixchain/fixer.go\<close>

subsection \<open>Data\<close>

text \<open>
  The type of \<^verbatim>\<open>FixError.Type\<close> is declared outside fixer.go. The switch of
  \<^verbatim>\<open>updateCounters\<close> names two of its values and has no default branch, so every
  further value (\<open>OtherType\<close>) falls through it.
\<close>

datatype errorType = VerifyFailed | FixFailed | OtherType nat

record FixError =
  Type :: errorType
  Detail :: string

text \<open>
  \<^verbatim>\<open>*urlCache\<close>: a Fixer allocates one urlCache object, so there is one pointer value.
  The object's state is a component of the system state below.
\<close>

datatype urlCacheRef = TheURLCache

text \<open>The job that \<^verbatim>\<open>QueueChain\<close> builds, with the four fields it sets.\<close>

record ('c, 'r) toFix =
  cert :: 'c
  chain :: "'c list"
  roots :: 'r
  cache :: urlCacheRef

text \<open>
  A Go channel: its capacity, the values buffered in it and whether it has been closed.
  \<^verbatim>\<open>make(chan T)\<close> has capacity 0.
\<close>

record 'j chan =
  cap :: nat
  buf :: "'j list"
  closed :: bool

text \<open>
  The struct \<^verbatim>\<open>Fixer\<close>. The two output channels belong to the caller and are
  send-only here: \<open>chains\<close> and \<open>errors\<close> hold the values sent on them so far, oldest
  first. \<^verbatim>\<open>uint\<close> is taken at 64 bits, \<^verbatim>\<open>uint32\<close> at 32; \<open>wg\<close> is the counter
  of the WaitGroup. The field \<^verbatim>\<open>done\<close> is named \<open>done_map\<close>: a set of job
  fingerprints, a fingerprint being the triple of certificate, deduplicated chain and
  root pool.
\<close>

record ('c, 'r) Fixer =
  toFix :: "('c, 'r) toFix chan"
  chains :: "'c list list"
  errors :: "FixError list"
  active :: "32 word"
  reconstructed :: "64 word"
  notReconstructed :: "64 word"
  fixed :: "64 word"
  notFixed :: "64 word"
  skipped :: "64 word"
  alreadyDone :: "64 word"
  wg :: nat
  cache :: urlCacheRef
  done_map :: "('c \<times> 'c list \<times> 'r) set"

subsection \<open>updateCounters\<close>

text \<open>
  The loop of \<^verbatim>\<open>updateCounters\<close> over \<^verbatim>\<open>ferrs\<close>, with the two flags it sets.
\<close>

fun scanErrors :: "FixError list \<Rightarrow> bool \<times> bool \<Rightarrow> bool \<times> bool" where
  "scanErrors [] (verifyFailed, fixFailed) = (verifyFailed, fixFailed)"
| "scanErrors (ferr # ferrs) (verifyFailed, fixFailed) =
     (case Type ferr of
        VerifyFailed \<Rightarrow> scanErrors ferrs (True, fixFailed)
      | FixFailed \<Rightarrow> scanErrors ferrs (verifyFailed, True)
      | OtherType n \<Rightarrow> scanErrors ferrs (verifyFailed, fixFailed))"

definition updateCounters ::
  "('c, 'r) Fixer \<Rightarrow> FixError list \<Rightarrow> ('c, 'r) Fixer" where
  "updateCounters f ferrs =
     (case scanErrors ferrs (False, False) of
        (verifyFailed, fixFailed) \<Rightarrow>
          if verifyFailed then
            (let f1 = f\<lparr>notReconstructed := notReconstructed f + 1\<rparr> in
             if fixFailed then f1\<lparr>notFixed := notFixed f1 + 1\<rparr>
             else f1\<lparr>fixed := fixed f1 + 1\<rparr>)
          else f\<lparr>reconstructed := reconstructed f + 1\<rparr>)"

subsection \<open>Jobs and the input queue\<close>

text \<open>
  Modelled from the spec: \<^verbatim>\<open>newDedupedChain\<close> is declared outside fixer.go. The spec
  says of it that consecutive duplicate certificates collapse to one.
\<close>

fun newDedupedChain :: "'c list \<Rightarrow> 'c list" where
  "newDedupedChain [] = []"
| "newDedupedChain [c] = [c]"
| "newDedupedChain (c # d # cs) =
     (if c = d then newDedupedChain (d # cs) else c # newDedupedChain (d # cs))"

text \<open>
  \<^verbatim>\<open>handleChain\<close> is declared outside fixer.go and is a parameter of the model. It is a
  method of the job, and \<^verbatim>\<open>QueueChain\<close> gives the job the certificate, the chain, the
  roots and the pointer to the urlCache: so it is a function of the job and of the state
  of that urlCache (with the network behind it), and returns the chains, the FixErrors
  and the new state of the urlCache. The job holds no pointer to the Fixer or to its
  \<^verbatim>\<open>done\<close> map.
\<close>

type_synonym ('c, 'r, 'k) handler =
  "('c, 'r) toFix \<Rightarrow> 'k \<Rightarrow> 'c list list \<times> FixError list \<times> 'k"

text \<open>What a call does: it returns, it blocks, or it panics.\<close>

datatype panic = SendOnClosedChannel | CloseOfClosedChannel | NegativeWaitGroupCounter

datatype 'a outcome = Returns 'a | Blocks | Panics panic

text \<open>
  A worker goroutine, by the statement of \<^verbatim>\<open>fixServer\<close> it is about to run, with its
  local variables \<^verbatim>\<open>fix\<close>, \<^verbatim>\<open>chains\<close> and \<^verbatim>\<open>ferrs\<close> (for the two output loops: what
  is left to send).
\<close>

datatype ('c, 'r) worker =
    Receiving
  | Received "('c, 'r) toFix"
  | Handling "('c, 'r) toFix"
  | Counting "'c list list" "FixError list"
  | SendingErrors "'c list list" "FixError list"
  | SendingChains "'c list list"
  | Finishing
  | Exited

text \<open>The caller of \<^verbatim>\<open>Wait\<close>: before the call, inside \<^verbatim>\<open>f.wg.Wait()\<close>, returned.\<close>

datatype wait_state = NotCalled | WaitingForWorkers | WaitReturned

text \<open>One line of \<^verbatim>\<open>logStats\<close>: the seven counters in the order they are printed.\<close>

type_synonym snapshot =
  "32 word \<times> 64 word \<times> 64 word \<times> 64 word \<times> 64 word \<times> 64 word \<times> 64 word"

text \<open>
  The running system: the Fixer, its worker goroutines, the urlCache object, the ticker
  of \<^verbatim>\<open>logStats\<close> (its period, a \<^verbatim>\<open>time.Duration\<close> in nanoseconds, when it was started), the lines logged
  and the caller of \<^verbatim>\<open>Wait\<close>. The last four fields are history variables: they record
  the jobs handed over by \<^verbatim>\<open>QueueChain\<close>, the jobs for which \<^verbatim>\<open>handleChain\<close> was
  called and everything it returned; no transition reads them.
\<close>

record ('c, 'r, 'k) system =
  fixer :: "('c, 'r) Fixer"
  workers :: "('c, 'r) worker list"
  urlCache :: 'k
  ticker :: "int option"
  logged :: "snapshot list"
  waiter :: wait_state
  queued :: "('c, 'r) toFix list"
  handled :: "('c, 'r) toFix list"
  produced_chains :: "'c list list"
  produced_errors :: "FixError list"

text \<open>
  \<^verbatim>\<open>QueueChain\<close>: build the job, then send it on \<^verbatim>\<open>f.toFix\<close>. A send on a closed channel
  panics; it hands the value to a goroutine waiting to receive when there is one (here
  worker \<open>i\<close>, the scheduler's choice); otherwise it puts the value in the buffer when
  the buffer has room; otherwise it blocks.
\<close>

definition QueueChain ::
  "'c \<Rightarrow> 'c list \<Rightarrow> 'r \<Rightarrow> nat \<Rightarrow> ('c, 'r, 'k) system \<Rightarrow> ('c, 'r, 'k) system outcome" where
  "QueueChain c ch r i s =
     (let f = fixer s;
          fix = \<lparr>cert = c, chain = newDedupedChain ch, roots = r, cache = Fixer.cache f\<rparr>;
          q = toFix f
      in if closed q then Panics SendOnClosedChannel
         else if i < length (workers s) \<and> workers s ! i = Receiving \<and> buf q = []
         then Returns (s\<lparr>workers := (workers s)[i := Received fix],
                         queued := queued s @ [fix]\<rparr>)
         else if length (buf q) < cap q
         then Returns (s\<lparr>fixer := f\<lparr>toFix := q\<lparr>buf := buf q @ [fix]\<rparr>\<rparr>,
                         queued := queued s @ [fix]\<rparr>)
         else Blocks)"

text \<open>
  \<^verbatim>\<open>Wait\<close> has two statements. \<^verbatim>\<open>close(f.toFix)\<close> panics on a closed channel.
  \<^verbatim>\<open>f.wg.Wait()\<close> returns when the counter of the WaitGroup is zero.
\<close>

definition Wait_close :: "('c, 'r, 'k) system \<Rightarrow> ('c, 'r, 'k) system outcome" where
  "Wait_close s =
     (let f = fixer s in
      if closed (toFix f) then Panics CloseOfClosedChannel
      else Returns (s\<lparr>fixer := f\<lparr>toFix := (toFix f)\<lparr>closed := True\<rparr>\<rparr>,
                      waiter := WaitingForWorkers\<rparr>))"

definition Wait_return :: "('c, 'r, 'k) system \<Rightarrow> ('c, 'r, 'k) system outcome" where
  "Wait_return s =
     (if waiter s = WaitingForWorkers \<and> wg (fixer s) = 0
      then Returns (s\<lparr>waiter := WaitReturned\<rparr>)
      else Blocks)"

subsection \<open>The workers\<close>

text \<open>
  One step of worker \<open>i\<close> in \<^verbatim>\<open>fixServer\<close>. The receive of the range loop takes the
  oldest buffered job; with an empty buffer it ends the loop when the channel is closed
  (the deferred \<^verbatim>\<open>f.wg.Done()\<close> then runs, and panics on a counter of zero) and waits
  otherwise: a job then reaches the worker through the hand-over of \<^verbatim>\<open>QueueChain\<close>.
  Each send on an output channel is a step of its own, as is each end of an output loop.
  \<^verbatim>\<open>^uint32(0)\<close> is \<open>NOT 0\<close>. The source updates the counters without synchronisation;
  here \<^verbatim>\<open>updateCounters\<close> is one step.
\<close>

definition fixServer_step ::
  "('c, 'r, 'k) handler \<Rightarrow> nat \<Rightarrow> ('c, 'r, 'k) system \<Rightarrow> ('c, 'r, 'k) system outcome" where
  "fixServer_step handleChain i s =
     (let f = fixer s; ws = workers s in
      if length ws \<le> i then Blocks
      else case ws ! i of
        Receiving \<Rightarrow>
          (case buf (toFix f) of
             fix # rest \<Rightarrow>
               Returns (s\<lparr>fixer := f\<lparr>toFix := (toFix f)\<lparr>buf := rest\<rparr>\<rparr>,
                          workers := ws[i := Received fix]\<rparr>)
           | [] \<Rightarrow>
               if closed (toFix f)
               then (if wg f = 0 then Panics NegativeWaitGroupCounter
                     else Returns (s\<lparr>fixer := f\<lparr>wg := wg f - 1\<rparr>,
                                     workers := ws[i := Exited]\<rparr>))
               else Blocks)
      | Received fix \<Rightarrow>
          Returns (s\<lparr>fixer := f\<lparr>active := active f + 1\<rparr>,
                     workers := ws[i := Handling fix]\<rparr>)
      | Handling fix \<Rightarrow>
          (case handleChain fix (urlCache s) of
             (cs, es, k) \<Rightarrow>
               Returns (s\<lparr>urlCache := k,
                          workers := ws[i := Counting cs es],
                          handled := handled s @ [fix],
                          produced_chains := produced_chains s @ cs,
                          produced_errors := produced_errors s @ es\<rparr>))
      | Counting cs es \<Rightarrow>
          Returns (s\<lparr>fixer := updateCounters f es,
                     workers := ws[i := SendingErrors cs es]\<rparr>)
      | SendingErrors cs es \<Rightarrow>
          (case es of
             ferr # rest \<Rightarrow>
               Returns (s\<lparr>fixer := f\<lparr>errors := errors f @ [ferr]\<rparr>,
                          workers := ws[i := SendingErrors cs rest]\<rparr>)
           | [] \<Rightarrow> Returns (s\<lparr>workers := ws[i := SendingChains cs]\<rparr>))
      | SendingChains cs \<Rightarrow>
          (case cs of
             c # rest \<Rightarrow>
               Returns (s\<lparr>fixer := f\<lparr>chains := chains f @ [c]\<rparr>,
                          workers := ws[i := SendingChains rest]\<rparr>)
           | [] \<Rightarrow> Returns (s\<lparr>workers := ws[i := Finishing]\<rparr>))
      | Finishing \<Rightarrow>
          Returns (s\<lparr>fixer := f\<lparr>active := active f + NOT 0\<rparr>,
                     workers := ws[i := Receiving]\<rparr>)
      | Exited \<Rightarrow> Blocks)"

text \<open>
  \<^verbatim>\<open>newFixServerPool\<close>: the loop over \<^verbatim>\<open>i\<close>; each round adds 1 to the WaitGroup and
  starts a goroutine at the head of \<^verbatim>\<open>fixServer\<close>.
\<close>

function newFixServerPool_loop ::
  "int \<Rightarrow> int \<Rightarrow> ('c, 'r, 'k) system \<Rightarrow> ('c, 'r, 'k) system" where
  "newFixServerPool_loop i workerCount s =
     (if i < workerCount
      then newFixServerPool_loop (i + 1) workerCount
             (s\<lparr>fixer := (fixer s)\<lparr>wg := wg (fixer s) + 1\<rparr>,
                workers := workers s @ [Receiving]\<rparr>)
      else s)"
  by pat_completeness auto
termination
  by (relation "measure (\<lambda>(i, workerCount, s). nat (workerCount - i))") auto

declare newFixServerPool_loop.simps [simp del]

definition newFixServerPool :: "int \<Rightarrow> ('c, 'r, 'k) system \<Rightarrow> ('c, 'r, 'k) system" where
  "newFixServerPool workerCount s = newFixServerPool_loop 0 workerCount s"

subsection \<open>The statistics\<close>

text \<open>
  \<^verbatim>\<open>logStats\<close> starts a ticker of period \<^verbatim>\<open>time.Second\<close> (in nanoseconds) and a goroutine
  that logs one line at each tick. Time is not modelled: a tick is a step that the
  running ticker can take at any moment. Nothing in fixer.go stops the ticker.
\<close>

definition logStats :: "('c, 'r, 'k) system \<Rightarrow> ('c, 'r, 'k) system" where
  "logStats s = s\<lparr>ticker := Some 1000000000\<rparr>"

definition stats_line :: "('c, 'r) Fixer \<Rightarrow> snapshot" where
  "stats_line f =
     (active f, reconstructed f, notReconstructed f, fixed f, notFixed f, skipped f,
      alreadyDone f)"

definition logStats_tick :: "('c, 'r, 'k) system \<Rightarrow> ('c, 'r, 'k) system outcome" where
  "logStats_tick s =
     (case ticker s of
        None \<Rightarrow> Blocks
      | Some period \<Rightarrow> Returns (s\<lparr>logged := logged s @ [stats_line (fixer s)]\<rparr>))"

subsection \<open>NewFixer\<close>

text \<open>
  \<^verbatim>\<open>NewFixer\<close>. The two output channels start with nothing sent on them, and \<open>k0\<close> is
  the state of the urlCache that \<^verbatim>\<open>newURLCache(client, logStats)\<close> returns. Every field
  that the struct literal leaves out has its zero value.
\<close>

definition NewFixer :: "int \<Rightarrow> 'k \<Rightarrow> bool \<Rightarrow> ('c, 'r, 'k) system" where
  "NewFixer workerCount k0 stats =
     (let f = \<lparr>toFix = \<lparr>cap = 0, buf = [], closed = False\<rparr>,
                chains = [], errors = [], active = 0,
                reconstructed = 0, notReconstructed = 0, fixed = 0, notFixed = 0,
                skipped = 0, alreadyDone = 0, wg = 0,
                cache = TheURLCache, done_map = {}\<rparr>;
          s = newFixServerPool workerCount
                \<lparr>fixer = f, workers = [], urlCache = k0, ticker = None, logged = [],
                 waiter = NotCalled, queued = [], handled = [],
                 produced_chains = [], produced_errors = []\<rparr>
      in if stats then logStats s else s)"

subsection \<open>Runs\<close>

text \<open>
  The steps of the system: a caller's \<^verbatim>\<open>QueueChain\<close> (with the worker it is paired
  with), a step of a worker, the two statements of \<^verbatim>\<open>Wait\<close>, and a tick. A run is a
  schedule of steps; it ends at the first step that panics, and a schedule with a step
  that cannot be taken (it blocks) is not a run of the system.
\<close>

datatype ('c, 'r) action =
    Queue 'c "'c list" 'r nat
  | Work nat
  | WaitClose
  | WaitReturn
  | Tick

fun exec ::
  "('c, 'r, 'k) handler \<Rightarrow> ('c, 'r) action \<Rightarrow> ('c, 'r, 'k) system \<Rightarrow>
   ('c, 'r, 'k) system outcome" where
  "exec handleChain (Queue c ch r i) s = QueueChain c ch r i s"
| "exec handleChain (Work i) s = fixServer_step handleChain i s"
| "exec handleChain WaitClose s = Wait_close s"
| "exec handleChain WaitReturn s = Wait_return s"
| "exec handleChain Tick s = logStats_tick s"

fun run ::
  "('c, 'r, 'k) handler \<Rightarrow> ('c, 'r) action list \<Rightarrow> ('c, 'r, 'k) system \<Rightarrow>
   ('c, 'r, 'k) system outcome" where
  "run handleChain [] s = Returns s"
| "run handleChain (a # as) s =
     (case exec handleChain a s of
        Returns s' \<Rightarrow> run handleChain as s'
      | Blocks \<Rightarrow> Blocks
      | Panics p \<Rightarrow> Panics p)"

subsection \<open>Quantities of a state\<close>

text \<open>
  What the properties below speak of. A worker is in flight from the increment of
  \<^verbatim>\<open>active\<close> to its decrement. It holds a job from the receive to the call of
  \<^verbatim>\<open>handleChain\<close>, and it holds pending outputs from that call until it has sent them.
\<close>

fun in_flight :: "('c, 'r) worker \<Rightarrow> bool" where
  "in_flight Receiving = False"
| "in_flight (Received fix) = False"
| "in_flight (Handling fix) = True"
| "in_flight (Counting cs es) = True"
| "in_flight (SendingErrors cs es) = True"
| "in_flight (SendingChains cs) = True"
| "in_flight Finishing = True"
| "in_flight Exited = False"

fun holding :: "('c, 'r) worker \<Rightarrow> ('c, 'r) toFix list" where
  "holding (Received fix) = [fix]"
| "holding (Handling fix) = [fix]"
| "holding w = []"

fun pending_errors :: "('c, 'r) worker \<Rightarrow> FixError list" where
  "pending_errors (Counting cs es) = es"
| "pending_errors (SendingErrors cs es) = es"
| "pending_errors w = []"

fun pending_chains :: "('c, 'r) worker \<Rightarrow> 'c list list" where
  "pending_chains (Counting cs es) = cs"
| "pending_chains (SendingErrors cs es) = cs"
| "pending_chains (SendingChains cs) = cs"
| "pending_chains w = []"


text \<open>
  The contribution of one worker to the counter of the WaitGroup and to \<^verbatim>\<open>active\<close>,
  and the balance of a state: both counters are the sums over the workers, everything
  \<^verbatim>\<open>handleChain\<close> returned is either sent or pending, and every job handed over is
  handled, buffered or held.
\<close>

definition alive :: "('c, 'r) worker \<Rightarrow> nat" where
  "alive w = (if w = Exited then 0 else 1)"

definition flying :: "('c, 'r) worker \<Rightarrow> 32 word" where
  "flying w = (if in_flight w then 1 else 0)"

definition balanced :: "('c, 'r, 'k) system \<Rightarrow> bool" where
  "balanced s \<longleftrightarrow>
     wg (fixer s) = sum_list (map alive (workers s)) \<and>
     active (fixer s) = sum_list (map flying (workers s)) \<and>
     mset (produced_errors s) =
       mset (errors (fixer s)) + sum_list (map (\<lambda>w. mset (pending_errors w)) (workers s)) \<and>
     mset (produced_chains s) =
       mset (chains (fixer s)) + sum_list (map (\<lambda>w. mset (pending_chains w)) (workers s)) \<and>
     mset (queued s) =
       (mset (handled s) + mset (buf (toFix (fixer s)))) +
       sum_list (map (\<lambda>w. mset (holding w)) (workers s))"


subsection \<open>Instances for concrete runs\<close>

text \<open>
  Two instances of the parameter \<^verbatim>\<open>handleChain\<close>, used where a property is run on a
  concrete input: one for which every chain verifies as it is, and one for which
  neither verification nor repair succeeds. Certificates and root pools are numbers
  there, and the urlCache has no state.
\<close>

definition accepting :: "(nat, nat, unit) handler" where
  "accepting fix k = ([chain fix], [], k)"

definition rejecting :: "(nat, nat, unit) handler" where
  "rejecting fix k =
     ([], [\<lparr>Type = VerifyFailed, Detail = ''no path to a root''\<rparr>,
           \<lparr>Type = FixFailed, Detail = ''no candidate left''\<rparr>], k)"

text \<open>The input queue holds nothing: it has no capacity and an empty buffer.\<close>

definition unbuffered :: "('c, 'r, 'k) system \<Rightarrow> bool" where
  "unbuffered s \<longleftrightarrow> cap (toFix (fixer s)) = 0 \<and> buf (toFix (fixer s)) = []"

subsection \<open>The loop body of fixServer, statement by statement\<close>

text \<open>
  The effect of each statement of the loop body on the state, apart from the position of
  the worker: \<^verbatim>\<open>atomic.AddUint32(&f.active, d)\<close>, the call of \<^verbatim>\<open>handleChain\<close> (with
  the history variables), \<^verbatim>\<open>f.updateCounters(ferrs)\<close>, the loop that sends the errors
  and the loop that sends the chains. \<open>worker_at\<close> puts worker \<open>i\<close> at a statement.
  The lemma \<open>run_job\<close> below shows that the steps of a worker compose to these.
\<close>

definition add_active :: "32 word \<Rightarrow> ('c, 'r, 'k) system \<Rightarrow> ('c, 'r, 'k) system" where
  "add_active d s = s\<lparr>fixer := (fixer s)\<lparr>active := active (fixer s) + d\<rparr>\<rparr>"

definition call_handleChain ::
  "('c, 'r, 'k) handler \<Rightarrow> ('c, 'r) toFix \<Rightarrow> ('c, 'r, 'k) system \<Rightarrow> ('c, 'r, 'k) system" where
  "call_handleChain handleChain fix s =
     (case handleChain fix (urlCache s) of
        (cs, es, k) \<Rightarrow>
          s\<lparr>urlCache := k, handled := handled s @ [fix],
            produced_chains := produced_chains s @ cs,
            produced_errors := produced_errors s @ es\<rparr>)"

definition count_errors :: "FixError list \<Rightarrow> ('c, 'r, 'k) system \<Rightarrow> ('c, 'r, 'k) system" where
  "count_errors es s = s\<lparr>fixer := updateCounters (fixer s) es\<rparr>"

definition send_errors :: "FixError list \<Rightarrow> ('c, 'r, 'k) system \<Rightarrow> ('c, 'r, 'k) system" where
  "send_errors es s = s\<lparr>fixer := (fixer s)\<lparr>errors := errors (fixer s) @ es\<rparr>\<rparr>"

definition send_chains :: "'c list list \<Rightarrow> ('c, 'r, 'k) system \<Rightarrow> ('c, 'r, 'k) system" where
  "send_chains cs s = s\<lparr>fixer := (fixer s)\<lparr>chains := chains (fixer s) @ cs\<rparr>\<rparr>"

definition worker_at :: "nat \<Rightarrow> ('c, 'r) worker \<Rightarrow> ('c, 'r, 'k) system \<Rightarrow> ('c, 'r, 'k) system" where
  "worker_at i w s = s\<lparr>workers := (workers s)[i := w]\<rparr>"

text \<open>
  The steps a worker takes for one job for which \<^verbatim>\<open>handleChain\<close> returns the chains
  \<open>cs\<close> and the errors \<open>es\<close>: the increment of \<^verbatim>\<open>active\<close>, the call, the counter
  update, one send for each error and the end of that loop, one send for each chain and
  the end of that loop, and the decrement of \<^verbatim>\<open>active\<close>.
\<close>

definition job_steps :: "nat \<Rightarrow> 'c list list \<Rightarrow> FixError list \<Rightarrow> ('c, 'r) action list" where
  "job_steps i cs es =
     [Work i, Work i, Work i] @ replicate (length es) (Work i) @ [Work i] @
     replicate (length cs) (Work i) @ [Work i, Work i]"

text \<open>No two adjacent entries of a chain are equal.\<close>

definition deduplicated :: "'c list \<Rightarrow> bool" where
  "deduplicated xs \<longleftrightarrow> (\<forall>j. Suc j < length xs \<longrightarrow> xs ! j \<noteq> xs ! Suc j)"

text \<open>
  \<^verbatim>\<open>Wait\<close> closes the channel before it waits, and it has returned only with the counter
  of the WaitGroup at zero.
\<close>

definition wait_sound :: "('c, 'r, 'k) system \<Rightarrow> bool" where
  "wait_sound s \<longleftrightarrow>
     (waiter s \<noteq> NotCalled \<longrightarrow> closed (toFix (fixer s))) \<and>
     (waiter s = WaitReturned \<longrightarrow> wg (fixer s) = 0)"

section \<open>Properties\<close>

subsection \<open>The counters\<close>

lemma scanErrors_flags:
  "scanErrors ferrs (v, x) =
     (v \<or> VerifyFailed \<in> Type ` set ferrs, x \<or> FixFailed \<in> Type ` set ferrs)"
proof (induction ferrs arbitrary: v x)
  case Nil
  show ?case by simp
next
  case (Cons ferr ferrs)
  show ?case
    by (cases "Type ferr") (auto simp: Cons.IH)
qed

lemma updateCounters_eq:
  "updateCounters f ferrs =
     (if VerifyFailed \<notin> Type ` set ferrs
      then f\<lparr>reconstructed := reconstructed f + 1\<rparr>
      else if FixFailed \<notin> Type ` set ferrs
      then f\<lparr>notReconstructed := notReconstructed f + 1, fixed := fixed f + 1\<rparr>
      else f\<lparr>notReconstructed := notReconstructed f + 1, notFixed := notFixed f + 1\<rparr>)"
  by (simp add: updateCounters_def scanErrors_flags)

lemma updateCounters_frame [simp]:
  "toFix (updateCounters f es) = toFix f"
  "chains (updateCounters f es) = chains f"
  "errors (updateCounters f es) = errors f"
  "active (updateCounters f es) = active f"
  "skipped (updateCounters f es) = skipped f"
  "alreadyDone (updateCounters f es) = alreadyDone f"
  "wg (updateCounters f es) = wg f"
  "Fixer.cache (updateCounters f es) = Fixer.cache f"
  "done_map (updateCounters f es) = done_map f"
  by (simp_all add: updateCounters_def Let_def split: prod.splits)

lemma run_invariant:
  assumes step: "\<And>a s s'. P s \<Longrightarrow> exec handleChain a s = Returns s' \<Longrightarrow> P s'"
    and init: "P s"
    and fin: "run handleChain as s = Returns s'"
  shows "P s'"
  using init fin
proof (induction as arbitrary: s)
  case Nil
  then show ?case by simp
next
  case (Cons a as)
  from Cons.prems(2) obtain t where t: "exec handleChain a s = Returns t"
    and r: "run handleChain as t = Returns s'"
    by (auto split: outcome.splits)
  from step [OF Cons.prems(1) t] have "P t" .
  from Cons.IH [OF this r] show ?case .
qed

lemmas step_defs = QueueChain_def fixServer_step_def Wait_close_def Wait_return_def
  logStats_tick_def Let_def

lemma exec_frame:
  assumes "exec handleChain a s = Returns s'"
  shows "length (workers s') = length (workers s)"
    and "cap (toFix (fixer s')) = cap (toFix (fixer s))"
    and "ticker s' = ticker s"
    and "skipped (fixer s') = skipped (fixer s)"
    and "alreadyDone (fixer s') = alreadyDone (fixer s)"
    and "done_map (fixer s') = done_map (fixer s)"
    and "Fixer.cache (fixer s') = Fixer.cache (fixer s)"
  using assms
  by (cases a; auto simp: step_defs split: if_splits worker.splits list.splits prod.splits option.splits)+

lemma sum_list_map_update:
  fixes g :: "'w \<Rightarrow> 'a::comm_monoid_add"
  shows "i < length ws \<Longrightarrow>
    sum_list (map g (ws[i := w])) + g (ws ! i) = sum_list (map g ws) + g w"
proof (induction ws arbitrary: i)
  case Nil
  then show ?case by simp
next
  case (Cons a ws)
  show ?case
  proof (cases i)
    case 0
    then show ?thesis by (simp add: ac_simps)
  next
    case (Suc j)
    with Cons.prems have "j < length ws" by simp
    from Cons.IH [OF this] show ?thesis using Suc by (simp add: ac_simps)
  qed
qed

lemma sum_list_balance:
  fixes g :: "'w \<Rightarrow> 'a::cancel_comm_monoid_add"
  assumes upd: "ws' = ws[i := ws' ! i]"
    and inv: "p = e + sum_list (map g ws)"
    and delta: "p' + e + g (ws ! i) = p + e' + g (ws' ! i)"
  shows "p' = e' + sum_list (map g ws')"
proof (cases "i < length ws")
  case True
  from sum_list_map_update [OF True, of g "ws' ! i"] upd
  have U: "sum_list (map g ws') + g (ws ! i) = sum_list (map g ws) + g (ws' ! i)"
    by simp
  have "p' + (e + g (ws ! i)) = p + e' + g (ws' ! i)"
    using delta by (simp add: ac_simps)
  also have "\<dots> = e + e' + (sum_list (map g ws) + g (ws' ! i))"
    using inv by (simp add: ac_simps)
  also have "\<dots> = e + e' + (sum_list (map g ws') + g (ws ! i))"
    using U by simp
  also have "\<dots> = (e' + sum_list (map g ws')) + (e + g (ws ! i))"
    by (simp add: ac_simps)
  finally show ?thesis by simp
next
  case False
  then have "length ws \<le> i" by simp
  then have "ws[i := ws' ! i] = ws" by (rule list_update_beyond)
  with upd have same: "ws' = ws" by (rule trans)
  have "p' + (e + g (ws ! i)) = p + e' + g (ws ! i)"
    using delta same by (simp add: ac_simps)
  also have "\<dots> = (e' + sum_list (map g ws)) + (e + g (ws ! i))"
    using inv by (simp add: ac_simps)
  finally show ?thesis using same by simp
qed


lemma fixServer_step_delta:
  assumes "fixServer_step handleChain i s = Returns s'"
  shows "workers s' = (workers s)[i := workers s' ! i]"
    and "wg (fixer s') + (if workers s ! i = Exited then 0 else 1) =
         wg (fixer s) + (if workers s' ! i = Exited then 0 else 1)"
    and "active (fixer s') + (if in_flight (workers s ! i) then 1 else 0) =
         active (fixer s) + (if in_flight (workers s' ! i) then 1 else 0)"
    and "mset (produced_errors s') + mset (errors (fixer s)) + mset (pending_errors (workers s ! i)) =
         mset (produced_errors s) + mset (errors (fixer s')) + mset (pending_errors (workers s' ! i))"
    and "mset (produced_chains s') + mset (chains (fixer s)) + mset (pending_chains (workers s ! i)) =
         mset (produced_chains s) + mset (chains (fixer s')) + mset (pending_chains (workers s' ! i))"
    and "mset (queued s') + (mset (handled s) + mset (buf (toFix (fixer s)))) + mset (holding (workers s ! i)) =
         mset (queued s) + (mset (handled s') + mset (buf (toFix (fixer s')))) + mset (holding (workers s' ! i))"
  using assms
  by (auto simp: fixServer_step_def Let_def split: if_splits worker.splits list.splits prod.splits)


lemma exec_delta:
  assumes "exec handleChain a s = Returns s'"
  obtains i where
    "workers s' = (workers s)[i := workers s' ! i]"
    "wg (fixer s') + alive (workers s ! i) = wg (fixer s) + alive (workers s' ! i)"
    "active (fixer s') + flying (workers s ! i) = active (fixer s) + flying (workers s' ! i)"
    "mset (produced_errors s') + mset (errors (fixer s)) + mset (pending_errors (workers s ! i)) =
     mset (produced_errors s) + mset (errors (fixer s')) + mset (pending_errors (workers s' ! i))"
    "mset (produced_chains s') + mset (chains (fixer s)) + mset (pending_chains (workers s ! i)) =
     mset (produced_chains s) + mset (chains (fixer s')) + mset (pending_chains (workers s' ! i))"
    "mset (queued s') + (mset (handled s) + mset (buf (toFix (fixer s)))) + mset (holding (workers s ! i)) =
     mset (queued s) + (mset (handled s') + mset (buf (toFix (fixer s')))) + mset (holding (workers s' ! i))"
proof (cases a)
  case (Work i)
  with assms have "fixServer_step handleChain i s = Returns s'" by simp
  from fixServer_step_delta [OF this] show ?thesis
    by (intro that [of i]) (simp_all add: alive_def flying_def)
next
  case (Queue c ch r i)
  with assms have q: "QueueChain c ch r i s = Returns s'" by simp
  show ?thesis
    by (rule that [of i]; use q in \<open>auto simp: QueueChain_def Let_def alive_def flying_def split: if_splits\<close>)
next
  case WaitClose
  with assms show ?thesis
    by (intro that [of 0]) (auto simp: Wait_close_def Let_def split: if_splits)
next
  case WaitReturn
  with assms show ?thesis
    by (intro that [of 0]) (auto simp: Wait_return_def split: if_splits)
next
  case Tick
  with assms show ?thesis
    by (intro that [of 0]) (auto simp: logStats_tick_def split: option.splits)
qed

lemma exec_balanced:
  assumes b: "balanced s" and e: "exec handleChain a s = Returns s'"
  shows "balanced s'"
proof -
  from e obtain i where upd: "workers s' = (workers s)[i := workers s' ! i]"
    and d1: "wg (fixer s') + alive (workers s ! i) = wg (fixer s) + alive (workers s' ! i)"
    and d2: "active (fixer s') + flying (workers s ! i) = active (fixer s) + flying (workers s' ! i)"
    and d3: "mset (produced_errors s') + mset (errors (fixer s)) + mset (pending_errors (workers s ! i)) =
     mset (produced_errors s) + mset (errors (fixer s')) + mset (pending_errors (workers s' ! i))"
    and d4: "mset (produced_chains s') + mset (chains (fixer s)) + mset (pending_chains (workers s ! i)) =
     mset (produced_chains s) + mset (chains (fixer s')) + mset (pending_chains (workers s' ! i))"
    and d5: "mset (queued s') + (mset (handled s) + mset (buf (toFix (fixer s)))) + mset (holding (workers s ! i)) =
     mset (queued s) + (mset (handled s') + mset (buf (toFix (fixer s')))) + mset (holding (workers s' ! i))"
    by (rule exec_delta)
  have "wg (fixer s') = 0 + sum_list (map alive (workers s'))"
    by (rule sum_list_balance [OF upd, where e = 0 and p = "wg (fixer s)"])
      (use b d1 in \<open>simp_all add: balanced_def\<close>)
  moreover have "active (fixer s') = 0 + sum_list (map flying (workers s'))"
    by (rule sum_list_balance [OF upd, where e = 0 and p = "active (fixer s)"])
      (use b d2 in \<open>simp_all add: balanced_def\<close>)
  moreover have "mset (produced_errors s') =
      mset (errors (fixer s')) + sum_list (map (\<lambda>w. mset (pending_errors w)) (workers s'))"
    by (rule sum_list_balance [OF upd, where e = "mset (errors (fixer s))" and p = "mset (produced_errors s)"])
      (use b d3 in \<open>simp_all add: balanced_def\<close>)
  moreover have "mset (produced_chains s') =
      mset (chains (fixer s')) + sum_list (map (\<lambda>w. mset (pending_chains w)) (workers s'))"
    by (rule sum_list_balance [OF upd, where e = "mset (chains (fixer s))" and p = "mset (produced_chains s)"])
      (use b d4 in \<open>simp_all add: balanced_def\<close>)
  moreover have "mset (queued s') =
      (mset (handled s') + mset (buf (toFix (fixer s')))) +
       sum_list (map (\<lambda>w. mset (holding w)) (workers s'))"
    by (rule sum_list_balance [OF upd, where e = "mset (handled s) + mset (buf (toFix (fixer s)))" and p = "mset (queued s)"])
      (use b d5 in \<open>simp_all add: balanced_def\<close>)
  ultimately show ?thesis by (simp add: balanced_def)
qed

lemma newFixServerPool_loop_eq:
  "newFixServerPool_loop i n s =
     s\<lparr>fixer := (fixer s)\<lparr>wg := wg (fixer s) + nat (n - i)\<rparr>,
       workers := workers s @ replicate (nat (n - i)) Receiving\<rparr>"
proof (induction i n s rule: newFixServerPool_loop.induct)
  case (1 i n s)
  show ?case
  proof (cases "i < n")
    case True
    then have k: "nat (n - i) = Suc (nat (n - (i + 1)))" by simp
    let ?s1 = "s\<lparr>fixer := (fixer s)\<lparr>wg := wg (fixer s) + 1\<rparr>,
                 workers := workers s @ [Receiving]\<rparr>"
    have "newFixServerPool_loop i n s = newFixServerPool_loop (i + 1) n ?s1"
      by (subst newFixServerPool_loop.simps) (simp only: True if_True)
    also have "\<dots> = ?s1\<lparr>fixer := (fixer ?s1)\<lparr>wg := wg (fixer ?s1) + nat (n - (i + 1))\<rparr>,
                        workers := workers ?s1 @ replicate (nat (n - (i + 1))) Receiving\<rparr>"
      by (rule "1.IH" [OF True])
    also have "\<dots> = s\<lparr>fixer := (fixer s)\<lparr>wg := wg (fixer s) + nat (n - i)\<rparr>,
                       workers := workers s @ replicate (nat (n - i)) Receiving\<rparr>"
      by (simp add: k)
    finally show ?thesis .
  next
    case False
    then show ?thesis
      by (subst newFixServerPool_loop.simps) simp
  qed
qed

lemma NewFixer_eq:
  "NewFixer workerCount k0 stats =
     \<lparr>fixer = \<lparr>toFix = \<lparr>cap = 0, buf = [], closed = False\<rparr>,
                chains = [], errors = [], active = 0,
                reconstructed = 0, notReconstructed = 0, fixed = 0, notFixed = 0,
                skipped = 0, alreadyDone = 0, wg = nat workerCount,
                cache = TheURLCache, done_map = {}\<rparr>,
      workers = replicate (nat workerCount) Receiving,
      urlCache = k0,
      ticker = (if stats then Some 1000000000 else None),
      logged = [], waiter = NotCalled, queued = [], handled = [],
      produced_chains = [], produced_errors = []\<rparr>"
  by (simp add: NewFixer_def newFixServerPool_def newFixServerPool_loop_eq logStats_def)

lemma sum_list_replicate_zero [simp]: "sum_list (replicate n (0::'a::comm_monoid_add)) = 0"
  by (induction n) simp_all

lemma sum_list_replicate_one [simp]: "sum_list (replicate n (Suc 0)) = n"
  by (induction n) simp_all

lemma balanced_NewFixer: "balanced (NewFixer workerCount k0 stats)"
  by (simp add: balanced_def NewFixer_eq flying_def alive_def)

lemma run_balanced:
  "run handleChain as (NewFixer workerCount k0 stats) = Returns s \<Longrightarrow> balanced s"
  by (rule run_invariant [where P = balanced, OF exec_balanced balanced_NewFixer])

lemma exec_closed:
  "closed (toFix (fixer s)) \<Longrightarrow> exec handleChain a s = Returns s' \<Longrightarrow> closed (toFix (fixer s'))"
  by (cases a; auto simp: step_defs split: if_splits worker.splits list.splits prod.splits option.splits)

lemma run_closed:
  "closed (toFix (fixer s)) \<Longrightarrow> run handleChain as s = Returns s' \<Longrightarrow> closed (toFix (fixer s'))"
  by (rule run_invariant [where P = "\<lambda>s. closed (toFix (fixer s))", OF exec_closed])

lemma run_after_WaitClose:
  "run handleChain as s0 = Returns s \<Longrightarrow> WaitClose \<in> set as \<Longrightarrow> closed (toFix (fixer s))"
proof (induction as arbitrary: s0)
  case Nil
  then show ?case by simp
next
  case (Cons a as)
  from Cons.prems(1) obtain t where t: "exec handleChain a s0 = Returns t"
    and r: "run handleChain as t = Returns s"
    by (auto split: outcome.splits)
  show ?case
  proof (cases "a = WaitClose")
    case True
    with t have "closed (toFix (fixer t))"
      by (auto simp: Wait_close_def Let_def split: if_splits)
    then show ?thesis using r by (rule run_closed)
  next
    case False
    with Cons.prems(2) have "WaitClose \<in> set as" by simp
    from Cons.IH [OF r this] show ?thesis .
  qed
qed

lemma exec_unbuffered:
  "unbuffered s \<Longrightarrow> exec handleChain a s = Returns s' \<Longrightarrow> unbuffered s'"
  by (cases a; auto simp: unbuffered_def step_defs split: if_splits worker.splits list.splits prod.splits option.splits)

lemma run_unbuffered:
  "run handleChain as (NewFixer workerCount k0 stats) = Returns s \<Longrightarrow> unbuffered s"
  by (rule run_invariant [where P = unbuffered, OF exec_unbuffered])
    (simp_all add: unbuffered_def NewFixer_eq)

lemma run_frame:
  assumes "run handleChain as s = Returns s'"
  shows "length (workers s') = length (workers s)"
    and "ticker s' = ticker s"
    and "skipped (fixer s') = skipped (fixer s)"
    and "alreadyDone (fixer s') = alreadyDone (fixer s)"
    and "done_map (fixer s') = done_map (fixer s)"
    and "Fixer.cache (fixer s') = Fixer.cache (fixer s)"
proof -
  let ?P = "\<lambda>t. length (workers t) = length (workers s) \<and> ticker t = ticker s \<and>
    skipped (fixer t) = skipped (fixer s) \<and> alreadyDone (fixer t) = alreadyDone (fixer s) \<and>
    done_map (fixer t) = done_map (fixer s) \<and> Fixer.cache (fixer t) = Fixer.cache (fixer s)"
  have "?P s'"
  proof (rule run_invariant [where P = ?P, OF _ _ assms])
    fix a t t'
    assume "?P t" "exec handleChain a t = Returns t'"
    with exec_frame [of handleChain a t t'] show "?P t'" by simp
  qed simp
  then show "length (workers s') = length (workers s)"
    and "ticker s' = ticker s"
    and "skipped (fixer s') = skipped (fixer s)"
    and "alreadyDone (fixer s') = alreadyDone (fixer s)"
    and "done_map (fixer s') = done_map (fixer s)"
    and "Fixer.cache (fixer s') = Fixer.cache (fixer s)" by simp_all
qed

subsection \<open>Construction with no worker\<close>

text \<open>
  C2, as the claim states it: \<^verbatim>\<open>NewFixer\<close> called with a \<^verbatim>\<open>workerCount\<close> of zero fails at
  once instead of returning an orchestrator that degrades at runtime. It does not: the
  loop of \<^verbatim>\<open>newFixServerPool\<close> runs no round, and \<^verbatim>\<open>NewFixer\<close> returns this Fixer, which
  has no worker and on which \<^verbatim>\<open>QueueChain\<close> blocks.
\<close>

theorem NewFixer_zero_workers_counterexample:
  "NewFixer 0 () False =
     (\<lparr>fixer = \<lparr>toFix = \<lparr>cap = 0, buf = [], closed = False\<rparr>,
                chains = [], errors = [], active = 0,
                reconstructed = 0, notReconstructed = 0, fixed = 0, notFixed = 0,
                skipped = 0, alreadyDone = 0, wg = 0,
                cache = TheURLCache, done_map = {}\<rparr>,
       workers = [], urlCache = (), ticker = None, logged = [], waiter = NotCalled,
       queued = [], handled = [], produced_chains = [], produced_errors = []\<rparr>
      :: (nat, nat, unit) system) \<and>
   QueueChain 1 [1, 2] 9 0 (NewFixer 0 () False :: (nat, nat, unit) system) = Blocks"
  by code_simp

text \<open>
  C2, amended: \<^verbatim>\<open>NewFixer\<close> called with a \<^verbatim>\<open>workerCount\<close> of zero returns an orchestrator
  with no worker and a WaitGroup counter of zero. In every state that orchestrator
  reaches there is still no worker, so a call of \<^verbatim>\<open>QueueChain\<close> blocks while the input
  channel is open (and panics once \<^verbatim>\<open>Wait\<close> has closed it), and \<^verbatim>\<open>Wait\<close> returns without
  waiting for anything.
\<close>

theorem NewFixer_zero_workers:
  fixes s0 :: "('c, 'r, 'k) system"
  assumes "s0 = NewFixer 0 k0 stats" and "run handleChain as s0 = Returns s"
  shows "workers s0 = [] \<and> wg (fixer s0) = 0 \<and> workers s = [] \<and>
    QueueChain c ch r i s =
      (if closed (toFix (fixer s)) then Panics SendOnClosedChannel else Blocks) \<and>
    run handleChain [WaitClose, WaitReturn] s0 =
      Returns (s0\<lparr>fixer := (fixer s0)\<lparr>toFix := \<lparr>cap = 0, buf = [], closed = True\<rparr>\<rparr>,
                 waiter := WaitReturned\<rparr>)"
proof -
  from assms have r: "run handleChain as (NewFixer 0 k0 stats) = Returns s" by simp
  from run_frame(1) [OF r] have w: "workers s = []" by (simp add: NewFixer_eq)
  from run_unbuffered [OF r] have u: "cap (toFix (fixer s)) = 0" "buf (toFix (fixer s)) = []"
    by (simp_all add: unbuffered_def)
  show ?thesis using w u assms(1)
    by (simp add: QueueChain_def Let_def NewFixer_eq Wait_close_def Wait_return_def)
qed

theorem NewFixer_zero_workers_witness:
  "\<exists>s. run accepting [Tick, WaitClose] (NewFixer 0 () True) = Returns s \<and> workers s = [] \<and>
     QueueChain 1 [1, 2] 9 0 s = Panics SendOnClosedChannel"
proof -
  have "case run accepting [Tick, WaitClose] (NewFixer 0 () True) of
          Returns s \<Rightarrow> closed (toFix (fixer s)) | _ \<Rightarrow> False"
    by code_simp
  then obtain s where s: "run accepting [Tick, WaitClose] (NewFixer 0 () True) = Returns s"
    and c: "closed (toFix (fixer s))"
    by (auto split: outcome.splits)
  from NewFixer_zero_workers [OF refl s, of 1 "[1, 2]" 9 0] c
  have "workers s = []" and "QueueChain 1 [1, 2] 9 0 s = Panics SendOnClosedChannel"
    by simp_all
  with s show ?thesis by blast
qed

subsection \<open>The input queue\<close>

text \<open>
  C7. The input queue that \<^verbatim>\<open>NewFixer\<close> makes has capacity 0, and in every state the
  system reaches nothing is buffered in it. A call of \<^verbatim>\<open>QueueChain\<close> on an open queue
  completes only by handing the job to a worker that is waiting to receive, at that
  moment; with no such worker it blocks.
\<close>

theorem input_queue_unbuffered:
  assumes "run handleChain as (NewFixer workerCount k0 stats) = Returns s"
  shows "cap (toFix (fixer s)) = 0 \<and> buf (toFix (fixer s)) = [] \<and>
    QueueChain c ch r i s =
      (if closed (toFix (fixer s)) then Panics SendOnClosedChannel
       else if i < length (workers s) \<and> workers s ! i = Receiving
       then Returns (s\<lparr>workers := (workers s)
                         [i := Received \<lparr>cert = c, chain = newDedupedChain ch, roots = r,
                                         cache = TheURLCache\<rparr>],
                       queued := queued s @
                         [\<lparr>cert = c, chain = newDedupedChain ch, roots = r,
                           cache = TheURLCache\<rparr>]\<rparr>)
       else Blocks)"
proof -
  from run_unbuffered [OF assms] have u: "cap (toFix (fixer s)) = 0" "buf (toFix (fixer s)) = []"
    by (simp_all add: unbuffered_def)
  from run_frame(6) [OF assms] have c: "Fixer.cache (fixer s) = TheURLCache"
    by (simp add: NewFixer_eq)
  show ?thesis using u c by (simp add: QueueChain_def Let_def)
qed

theorem input_queue_unbuffered_witness:
  "\<exists>s. run accepting [Queue 1 [1, 2] 9 0, Work 0] (NewFixer 2 () False) = Returns s \<and>
     cap (toFix (fixer s)) = 0 \<and> buf (toFix (fixer s)) = [] \<and>
     QueueChain 3 [3, 4] 9 0 s = Blocks \<and>
     QueueChain 3 [3, 3, 4] 9 1 s =
       Returns (s\<lparr>workers := (workers s)
                    [1 := Received \<lparr>cert = 3, chain = [3, 4], roots = 9, cache = TheURLCache\<rparr>],
                  queued := queued s @
                    [\<lparr>cert = 3, chain = [3, 4], roots = 9, cache = TheURLCache\<rparr>]\<rparr>)"
proof -
  have "case run accepting [Queue 1 [1, 2] 9 0, Work 0] (NewFixer 2 () False) of
          Returns s \<Rightarrow> \<not> closed (toFix (fixer s)) \<and> workers s ! 0 \<noteq> Receiving \<and>
             workers s ! 1 = Receiving \<and> length (workers s) = 2
        | _ \<Rightarrow> False"
    by code_simp
  then obtain s where s: "run accepting [Queue 1 [1, 2] 9 0, Work 0] (NewFixer 2 () False) = Returns s"
    and f: "\<not> closed (toFix (fixer s))" "workers s ! 0 \<noteq> Receiving" "workers s ! 1 = Receiving"
      "length (workers s) = 2"
    by (auto split: outcome.splits)
  from input_queue_unbuffered [OF s, of 3 "[3, 4]" 9 0]
    input_queue_unbuffered [OF s, of 3 "[3, 3, 4]" 9 1] s f
  show ?thesis by (intro exI [of _ s]) simp
qed

subsection \<open>QueueChain after Wait\<close>

text \<open>
  C9. Once \<^verbatim>\<open>Wait\<close> has run its first statement, the close of the input channel, every
  call of \<^verbatim>\<open>QueueChain\<close> panics with a send on a closed channel: it neither blocks nor
  returns.
\<close>

theorem QueueChain_after_Wait_panics:
  assumes "run handleChain as s0 = Returns s" and "WaitClose \<in> set as"
  shows "QueueChain c ch r i s = Panics SendOnClosedChannel"
  using run_after_WaitClose [OF assms] by (simp add: QueueChain_def Let_def)

theorem QueueChain_after_Wait_panics_witness:
  "\<exists>s. run accepting [Queue 1 [1, 2] 9 0, WaitClose] (NewFixer 1 () False) = Returns s \<and>
        WaitClose \<in> set [Queue (1::nat) [1, 2] (9::nat) 0, WaitClose] \<and>
        QueueChain 3 [3, 4] 9 0 s = Panics SendOnClosedChannel"
proof -
  have "case run accepting [Queue 1 [1, 2] 9 0, WaitClose] (NewFixer 1 () False) of
          Returns s \<Rightarrow> True | _ \<Rightarrow> False"
    by code_simp
  then obtain s where s: "run accepting [Queue 1 [1, 2] 9 0, WaitClose] (NewFixer 1 () False) = Returns s"
    by (auto split: outcome.splits)
  have w: "WaitClose \<in> set [Queue (1::nat) [1, 2] (9::nat) 0, WaitClose]" by simp
  from QueueChain_after_Wait_panics [OF s w, of 3 "[3, 4]" 9 0] s w show ?thesis by blast
qed

subsection \<open>One job, run by one worker\<close>

lemma run_append:
  "run handleChain (as @ bs) s =
     (case run handleChain as s of
        Returns t \<Rightarrow> run handleChain bs t
      | Blocks \<Rightarrow> Blocks
      | Panics p \<Rightarrow> Panics p)"
  by (induction as arbitrary: s) (simp_all split: outcome.splits)

lemma run_errors_loop:
  assumes "i < length (workers s)" and "workers s ! i = SendingErrors cs es"
  shows "run handleChain (replicate (length es) (Work i)) s =
           Returns (worker_at i (SendingErrors cs []) (send_errors es s))"
  using assms
proof (induction es arbitrary: s)
  case Nil
  then have "(workers s)[i := SendingErrors cs []] = workers s"
    by (simp add: list_update_same_conv)
  then show ?case by (simp add: worker_at_def send_errors_def)
next
  case (Cons e es)
  let ?t = "worker_at i (SendingErrors cs es) (send_errors [e] s)"
  from Cons.prems have step: "exec handleChain (Work i) s = Returns ?t"
    by (simp add: fixServer_step_def Let_def worker_at_def send_errors_def)
  from Cons.prems have "i < length (workers ?t)" "workers ?t ! i = SendingErrors cs es"
    by (simp_all add: worker_at_def send_errors_def)
  from Cons.IH [OF this]
  have "run handleChain (replicate (length es) (Work i)) ?t =
          Returns (worker_at i (SendingErrors cs []) (send_errors es ?t))" .
  moreover have "worker_at i (SendingErrors cs []) (send_errors es ?t) =
      worker_at i (SendingErrors cs []) (send_errors (e # es) s)"
    by (simp add: worker_at_def send_errors_def)
  ultimately show ?case using step by simp
qed

lemma run_chains_loop:
  assumes "i < length (workers s)" and "workers s ! i = SendingChains cs"
  shows "run handleChain (replicate (length cs) (Work i)) s =
           Returns (worker_at i (SendingChains []) (send_chains cs s))"
  using assms
proof (induction cs arbitrary: s)
  case Nil
  then have "(workers s)[i := SendingChains []] = workers s"
    by (simp add: list_update_same_conv)
  then show ?case by (simp add: worker_at_def send_chains_def)
next
  case (Cons c cs)
  let ?t = "worker_at i (SendingChains cs) (send_chains [c] s)"
  from Cons.prems have step: "exec handleChain (Work i) s = Returns ?t"
    by (simp add: fixServer_step_def Let_def worker_at_def send_chains_def)
  from Cons.prems have "i < length (workers ?t)" "workers ?t ! i = SendingChains cs"
    by (simp_all add: worker_at_def send_chains_def)
  from Cons.IH [OF this]
  have "run handleChain (replicate (length cs) (Work i)) ?t =
          Returns (worker_at i (SendingChains []) (send_chains cs ?t))" .
  moreover have "worker_at i (SendingChains []) (send_chains cs ?t) =
      worker_at i (SendingChains []) (send_chains (c # cs) s)"
    by (simp add: worker_at_def send_chains_def)
  ultimately show ?case using step by simp
qed

lemma run_Cons_Returns:
  "exec handleChain a s = Returns t \<Longrightarrow> run handleChain (a # as) s = run handleChain as t"
  by simp

lemma run_append_Returns:
  "run handleChain as s = Returns t \<Longrightarrow> run handleChain (as @ bs) s = run handleChain bs t"
  by (simp add: run_append)

lemma run_job:
  fixes s :: "('c, 'r, 'k) system"
  assumes i: "i < length (workers s)" and w: "workers s ! i = Received fix"
    and h: "handleChain fix (urlCache s) = (cs, es, k)"
  defines "s3 \<equiv> count_errors es (call_handleChain handleChain fix (add_active 1 s))"
  defines "W \<equiv> Work i :: ('c, 'r) action"
  shows "run handleChain [W] s = Returns (worker_at i (Handling fix) (add_active 1 s))"
    and "run handleChain [W, W] s =
           Returns (worker_at i (Counting cs es) (call_handleChain handleChain fix (add_active 1 s)))"
    and "run handleChain [W, W, W] s = Returns (worker_at i (SendingErrors cs es) s3)"
    and "run handleChain ([W, W, W] @ replicate (length es) W @ [W]) s =
           Returns (worker_at i (SendingChains cs) (send_errors es s3))"
    and "run handleChain ([W, W, W] @ replicate (length es) W @ [W] @ replicate (length cs) W @ [W]) s =
           Returns (worker_at i Finishing (send_chains cs (send_errors es s3)))"
    and "run handleChain ([W, W, W] @ replicate (length es) W @ [W] @ replicate (length cs) W @ [W, W]) s =
           Returns (worker_at i Receiving (add_active (NOT 0) (send_chains cs (send_errors es s3))))"
proof -
  let ?S1 = "worker_at i (Handling fix) (add_active 1 s)"
  let ?S2 = "worker_at i (Counting cs es) (call_handleChain handleChain fix (add_active 1 s))"
  let ?S3 = "worker_at i (SendingErrors cs es) s3"
  let ?S4' = "worker_at i (SendingErrors cs []) (send_errors es ?S3)"
  let ?S4 = "worker_at i (SendingChains cs) (send_errors es s3)"
  let ?S5' = "worker_at i (SendingChains []) (send_chains cs ?S4)"
  let ?S5 = "worker_at i Finishing (send_chains cs (send_errors es s3))"
  let ?S6 = "worker_at i Receiving (add_active (NOT 0) (send_chains cs (send_errors es s3)))"
  note defs = worker_at_def add_active_def call_handleChain_def count_errors_def send_errors_def
    send_chains_def fixServer_step_def Let_def s3_def W_def
  have e1: "exec handleChain W s = Returns ?S1"
    using i w by (simp add: defs)
  have e2: "exec handleChain W ?S1 = Returns ?S2"
    using i h by (simp add: defs)
  have e3: "exec handleChain W ?S2 = Returns ?S3"
    using i h by (simp add: defs)
  have l4: "run handleChain (replicate (length es) W) ?S3 = Returns ?S4'"
    unfolding W_def by (rule run_errors_loop) (use i h in \<open>simp_all add: defs\<close>)
  have e4: "exec handleChain W ?S4' = Returns ?S4"
    using i h by (simp add: defs)
  have l5: "run handleChain (replicate (length cs) W) ?S4 = Returns ?S5'"
    unfolding W_def by (rule run_chains_loop) (use i h in \<open>simp_all add: defs\<close>)
  have e5: "exec handleChain W ?S5' = Returns ?S5"
    using i h by (simp add: defs)
  have e6: "exec handleChain W ?S5 = Returns ?S6"
    using i h by (simp add: defs)
  show r1: "run handleChain [W] s = Returns ?S1"
    using e1 by simp
  show r2: "run handleChain [W, W] s = Returns ?S2"
    using e1 e2 by simp
  show r3: "run handleChain [W, W, W] s = Returns ?S3"
    using e1 e2 e3 by simp
  have r4': "run handleChain ([W, W, W] @ replicate (length es) W) s = Returns ?S4'"
    using run_append_Returns [OF r3] l4 by simp
  have r4: "run handleChain (([W, W, W] @ replicate (length es) W) @ [W]) s = Returns ?S4"
    using run_append_Returns [OF r4'] e4 by simp
  then show "run handleChain ([W, W, W] @ replicate (length es) W @ [W]) s = Returns ?S4"
    by simp
  have r5': "run handleChain ((([W, W, W] @ replicate (length es) W) @ [W]) @ replicate (length cs) W) s
      = Returns ?S5'"
    using run_append_Returns [OF r4] l5 by simp
  have r5: "run handleChain (((([W, W, W] @ replicate (length es) W) @ [W]) @ replicate (length cs) W) @ [W]) s
      = Returns ?S5"
    using run_append_Returns [OF r5'] e5 by simp
  then show "run handleChain ([W, W, W] @ replicate (length es) W @ [W] @ replicate (length cs) W @ [W]) s
      = Returns ?S5"
    by simp
  have "run handleChain ((((([W, W, W] @ replicate (length es) W) @ [W]) @ replicate (length cs) W) @ [W]) @ [W]) s
      = Returns ?S6"
    using run_append_Returns [OF r5] e6 by simp
  then show "run handleChain ([W, W, W] @ replicate (length es) W @ [W] @ replicate (length cs) W @ [W, W]) s
      = Returns ?S6"
    by simp
qed

lemma fixer_after_job:
  "fixer (worker_at i w (add_active (NOT 0) (send_chains cs (send_errors es
      (count_errors es (call_handleChain handleChain fix (add_active 1 s))))))) =
   (updateCounters (fixer s) es)
     \<lparr>errors := errors (fixer s) @ es, chains := chains (fixer s) @ cs\<rparr>"
  by (cases "handleChain fix (urlCache s)")
    (simp add: worker_at_def add_active_def send_chains_def send_errors_def count_errors_def
      call_handleChain_def updateCounters_eq)

subsection \<open>The counters of a job\<close>

text \<open>
  C1. The counter update looks at the FixErrors of a job only through the presence of a
  VerifyFailed and of a FixFailed error: with no VerifyFailed error it increments
  \<open>reconstructed\<close>; with a VerifyFailed and no FixFailed error it increments
  \<open>notReconstructed\<close> and \<open>fixed\<close>; with both it increments \<open>notReconstructed\<close> and
  \<open>notFixed\<close>. For every job a worker completes, the update is applied to the FixErrors
  that \<^verbatim>\<open>handleChain\<close> returned for that job, and across the whole job the Fixer changes
  in nothing else but the outputs sent: \<open>active\<close> is back at its value, and \<open>skipped\<close>,
  \<open>alreadyDone\<close> and every other field keep theirs. (The job is run without steps of
  other workers in between.)
\<close>

theorem counters_per_job:
  fixes s :: "('c, 'r, 'k) system" and f :: "('c, 'r) Fixer"
  shows "updateCounters f ferrs =
     (if VerifyFailed \<notin> Type ` set ferrs
      then f\<lparr>reconstructed := reconstructed f + 1\<rparr>
      else if FixFailed \<notin> Type ` set ferrs
      then f\<lparr>notReconstructed := notReconstructed f + 1, fixed := fixed f + 1\<rparr>
      else f\<lparr>notReconstructed := notReconstructed f + 1, notFixed := notFixed f + 1\<rparr>) \<and>
    (i < length (workers s) \<and> workers s ! i = Received fix \<and>
     handleChain fix (urlCache s) = (cs, es, k) \<longrightarrow>
       (\<exists>t. run handleChain (job_steps i cs es) s = Returns t \<and>
            fixer t = (updateCounters (fixer s) es)
              \<lparr>errors := errors (fixer s) @ es, chains := chains (fixer s) @ cs\<rparr>))"
proof -
  have "\<exists>t. run handleChain (job_steps i cs es) s = Returns t \<and>
            fixer t = (updateCounters (fixer s) es)
              \<lparr>errors := errors (fixer s) @ es, chains := chains (fixer s) @ cs\<rparr>"
    if "i < length (workers s)" "workers s ! i = Received fix"
      "handleChain fix (urlCache s) = (cs, es, k)"
  proof (intro exI conjI)
    show "run handleChain (job_steps i cs es) s =
      Returns (worker_at i Receiving (add_active (NOT 0) (send_chains cs (send_errors es
        (count_errors es (call_handleChain handleChain fix (add_active 1 s)))))))"
      unfolding job_steps_def by (rule run_job(6) [of i s "fix" handleChain cs es k, OF that])
    show "fixer (worker_at i Receiving (add_active (NOT 0) (send_chains cs (send_errors es
        (count_errors es (call_handleChain handleChain fix (add_active 1 s))))))) =
      (updateCounters (fixer s) es)
        \<lparr>errors := errors (fixer s) @ es, chains := chains (fixer s) @ cs\<rparr>"
      by (rule fixer_after_job)
  qed
  then show ?thesis using updateCounters_eq [of f ferrs] by blast
qed

theorem counters_per_job_witness:
  "\<exists>s t. run rejecting [Queue 1 [1, 2] 9 0] (NewFixer 1 () False) = Returns s \<and>
     run rejecting
       (job_steps 0 []
          [\<lparr>Type = VerifyFailed, Detail = ''no path to a root''\<rparr>,
           \<lparr>Type = FixFailed, Detail = ''no candidate left''\<rparr>]) s = Returns t \<and>
     reconstructed (fixer t) = 0 \<and> notReconstructed (fixer t) = 1 \<and>
     fixed (fixer t) = 0 \<and> notFixed (fixer t) = 1 \<and>
     errors (fixer t) =
       [\<lparr>Type = VerifyFailed, Detail = ''no path to a root''\<rparr>,
        \<lparr>Type = FixFailed, Detail = ''no candidate left''\<rparr>]"
proof -
  let ?job = "\<lparr>cert = 1, chain = [1, 2], roots = 9, cache = TheURLCache\<rparr> :: (nat, nat) toFix"
  let ?es = "[\<lparr>Type = VerifyFailed, Detail = ''no path to a root''\<rparr>,
              \<lparr>Type = FixFailed, Detail = ''no candidate left''\<rparr>]"
  have "case run rejecting [Queue 1 [1, 2] 9 0] (NewFixer 1 () False) of
          Returns s \<Rightarrow> workers s = [Received ?job] \<and>
            reconstructed (fixer s) = 0 \<and> notReconstructed (fixer s) = 0 \<and>
            fixed (fixer s) = 0 \<and> notFixed (fixer s) = 0 \<and> errors (fixer s) = []
        | _ \<Rightarrow> False"
    by code_simp
  then obtain s where s: "run rejecting [Queue 1 [1, 2] 9 0] (NewFixer 1 () False) = Returns s"
    and w: "workers s = [Received ?job]"
    and z: "reconstructed (fixer s) = 0" "notReconstructed (fixer s) = 0"
      "fixed (fixer s) = 0" "notFixed (fixer s) = 0" "errors (fixer s) = []"
    by (auto split: outcome.splits)
  from w have h: "0 < length (workers s)" "workers s ! 0 = Received ?job" by simp_all
  have r: "rejecting ?job (urlCache s) = ([], ?es, urlCache s)"
    by (simp add: rejecting_def)
  from counters_per_job [of "fixer s" ?es 0 s ?job rejecting "[]" ?es "urlCache s"] h r
  obtain t where t: "run rejecting (job_steps 0 [] ?es) s = Returns t"
    and f: "fixer t = (updateCounters (fixer s) ?es)
              \<lparr>errors := errors (fixer s) @ ?es, chains := chains (fixer s) @ []\<rparr>"
    by blast
  from counters_per_job [of "fixer s" ?es 0 s ?job rejecting "[]" ?es "urlCache s"]
  have u: "updateCounters (fixer s) ?es =
      (fixer s)\<lparr>notReconstructed := notReconstructed (fixer s) + 1,
                notFixed := notFixed (fixer s) + 1\<rparr>"
    by simp
  from f u z have "reconstructed (fixer t) = 0 \<and> notReconstructed (fixer t) = 1 \<and>
     fixed (fixer t) = 0 \<and> notFixed (fixer t) = 1 \<and> errors (fixer t) = ?es"
    by simp
  with s t show ?thesis by blast
qed

subsection \<open>The order of the loop body\<close>

text \<open>
  C4, as the claim states it: the worker publishes the outputs of a job first, and the
  counters are updated only after that. They are updated before: after the third step of
  the worker on a job that cannot be fixed, \<open>notReconstructed\<close> and \<open>notFixed\<close> are
  already 1 while nothing has been sent, and both FixErrors are still pending.
\<close>

theorem counters_before_outputs_counterexample:
  "run rejecting [Queue 1 [1, 2] 9 0, Work 0, Work 0, Work 0] (NewFixer 1 () False) =
     Returns
      \<lparr>fixer = \<lparr>toFix = \<lparr>cap = 0, buf = [], closed = False\<rparr>,
                 chains = [], errors = [], active = 1,
                 reconstructed = 0, notReconstructed = 1, fixed = 0, notFixed = 1,
                 skipped = 0, alreadyDone = 0, wg = 1,
                 cache = TheURLCache, done_map = {}\<rparr>,
        workers = [SendingErrors []
                     [\<lparr>Type = VerifyFailed, Detail = ''no path to a root''\<rparr>,
                      \<lparr>Type = FixFailed, Detail = ''no candidate left''\<rparr>]],
        urlCache = (), ticker = None, logged = [], waiter = NotCalled,
        queued = [\<lparr>cert = 1, chain = [1, 2], roots = 9, cache = TheURLCache\<rparr>],
        handled = [\<lparr>cert = 1, chain = [1, 2], roots = 9, cache = TheURLCache\<rparr>],
        produced_chains = [],
        produced_errors = [\<lparr>Type = VerifyFailed, Detail = ''no path to a root''\<rparr>,
                           \<lparr>Type = FixFailed, Detail = ''no candidate left''\<rparr>]\<rparr>"
  by code_simp

text \<open>
  C4, amended: for every job the worker first updates the counters from the FixErrors
  of the job, then publishes the FixErrors, then the fixed chains, and then decrements
  \<open>active\<close>; all outputs of the job are published before the worker is back at the
  receive for its next job. The four runs stop after the counter update, after the loop
  of the errors, after the loop of the chains, and at the end of the loop body.
\<close>

theorem fixServer_order:
  fixes s :: "('c, 'r, 'k) system"
  assumes "i < length (workers s)" and "workers s ! i = Received fix"
    and "handleChain fix (urlCache s) = (cs, es, k)"
  shows
    "run handleChain [Work i, Work i, Work i] s =
       Returns (worker_at i (SendingErrors cs es)
         (count_errors es (call_handleChain handleChain fix (add_active 1 s)))) \<and>
     run handleChain ([Work i, Work i, Work i] @ replicate (length es) (Work i) @ [Work i]) s =
       Returns (worker_at i (SendingChains cs)
         (send_errors es
           (count_errors es (call_handleChain handleChain fix (add_active 1 s))))) \<and>
     run handleChain ([Work i, Work i, Work i] @ replicate (length es) (Work i) @ [Work i] @
                      replicate (length cs) (Work i) @ [Work i]) s =
       Returns (worker_at i Finishing
         (send_chains cs (send_errors es
           (count_errors es (call_handleChain handleChain fix (add_active 1 s)))))) \<and>
     run handleChain (job_steps i cs es) s =
       Returns (worker_at i Receiving
         (add_active (NOT 0) (send_chains cs (send_errors es
           (count_errors es (call_handleChain handleChain fix (add_active 1 s)))))))"
  unfolding job_steps_def
  by (intro conjI) (rule run_job(3-6) [of i s "fix" handleChain cs es k, OF assms])+

theorem fixServer_order_witness:
  "\<exists>s. run rejecting [Queue 1 [1, 2] 9 0] (NewFixer 1 () False) = Returns s \<and>
     (case run rejecting [Work 0, Work 0, Work 0] s of
        Returns a \<Rightarrow> notFixed (fixer a) = 1 \<and> errors (fixer a) = []
      | _ \<Rightarrow> False) \<and>
     (case run rejecting [Work 0, Work 0, Work 0, Work 0, Work 0, Work 0] s of
        Returns b \<Rightarrow> notFixed (fixer b) = 1 \<and> length (errors (fixer b)) = 2 \<and>
          workers b = [SendingChains []] \<and> active (fixer b) = 1
      | _ \<Rightarrow> False) \<and>
     (case run rejecting
             (job_steps 0 []
               [\<lparr>Type = VerifyFailed, Detail = ''no path to a root''\<rparr>,
                \<lparr>Type = FixFailed, Detail = ''no candidate left''\<rparr>]) s of
        Returns d \<Rightarrow> workers d = [Receiving] \<and> active (fixer d) = 0 \<and>
          length (errors (fixer d)) = 2
      | _ \<Rightarrow> False)"
proof -
  let ?job = "\<lparr>cert = 1, chain = [1, 2], roots = 9, cache = TheURLCache\<rparr> :: (nat, nat) toFix"
  let ?es = "[\<lparr>Type = VerifyFailed, Detail = ''no path to a root''\<rparr>,
              \<lparr>Type = FixFailed, Detail = ''no candidate left''\<rparr>]"
  have "case run rejecting [Queue 1 [1, 2] 9 0] (NewFixer 1 () False) of
          Returns s \<Rightarrow> workers s = [Received ?job] \<and>
            notReconstructed (fixer s) = 0 \<and>
            notFixed (fixer s) = 0 \<and> errors (fixer s) = [] \<and> active (fixer s) = 0
        | _ \<Rightarrow> False"
    by code_simp
  then obtain s where s: "run rejecting [Queue 1 [1, 2] 9 0] (NewFixer 1 () False) = Returns s"
    and w: "workers s = [Received ?job]"
    and z: "notReconstructed (fixer s) = 0"
      "notFixed (fixer s) = 0" "errors (fixer s) = []" "active (fixer s) = 0"
    by (auto split: outcome.splits)
  from w have h: "0 < length (workers s)" "workers s ! 0 = Received ?job" by simp_all
  have r: "rejecting ?job (urlCache s) = ([], ?es, urlCache s)"
    by (simp add: rejecting_def)
  note o = fixServer_order [of 0 s ?job rejecting "[]" ?es "urlCache s", OF h r]
  have u: "updateCounters f ?es =
      f\<lparr>notReconstructed := notReconstructed f + 1, notFixed := notFixed f + 1\<rparr>"
    for f :: "(nat, nat) Fixer"
    by (simp add: updateCounters_def)
  have a: "case run rejecting [Work 0, Work 0, Work 0] s of
        Returns a \<Rightarrow> notFixed (fixer a) = 1 \<and> errors (fixer a) = []
      | _ \<Rightarrow> False"
    using o z r
    by (simp add: worker_at_def count_errors_def call_handleChain_def add_active_def u)
  have b: "case run rejecting [Work 0, Work 0, Work 0, Work 0, Work 0, Work 0] s of
        Returns b \<Rightarrow> notFixed (fixer b) = 1 \<and> length (errors (fixer b)) = 2 \<and>
          workers b = [SendingChains []] \<and> active (fixer b) = 1
      | _ \<Rightarrow> False"
    using o z r w
    by (simp add: worker_at_def count_errors_def call_handleChain_def add_active_def send_errors_def u)
  have d: "case run rejecting (job_steps 0 [] ?es) s of
        Returns d \<Rightarrow> workers d = [Receiving] \<and> active (fixer d) = 0 \<and>
          length (errors (fixer d)) = 2
      | _ \<Rightarrow> False"
    using o z r w
    by (simp add: worker_at_def count_errors_def call_handleChain_def add_active_def send_errors_def
        send_chains_def u)
  show ?thesis by (intro exI [of _ s] conjI) (rule s a b d)+
qed

subsection \<open>The counter of active workers\<close>

lemma sum_list_flying: "sum_list (map flying ws) = of_nat (length (filter in_flight ws))"
  by (induction ws) (simp_all add: flying_def)

lemma fixServer_step_active:
  assumes "fixServer_step handleChain i s = Returns s'"
  shows "active (fixer s') =
    (case workers s ! i of
       Received fix \<Rightarrow> active (fixer s) + 1
     | Finishing \<Rightarrow> active (fixer s) + 4294967295
     | _ \<Rightarrow> active (fixer s))"
  using assms
  by (auto simp: fixServer_step_def Let_def split: if_splits worker.splits list.splits prod.splits)

text \<open>
  C10. In every state the system reaches, \<open>active\<close> is the number of workers in
  flight, as a 32-bit value, and it is that number itself for fewer than \<open>2 ^ 32\<close>
  workers; a worker is in flight from its increment, which comes before the call of
  \<^verbatim>\<open>handleChain\<close>, to its decrement, which comes after the outputs are sent. A step of
  a worker changes \<open>active\<close> only at these two statements: it adds 1 at the first and
  \<open>2 ^ 32 - 1\<close> at the second. Across a completed job the value of \<open>active\<close> is
  unchanged.
\<close>

theorem active_counter:
  fixes s :: "('c, 'r, 'k) system"
  assumes "run handleChain as (NewFixer workerCount k0 stats) = Returns s"
  shows "active (fixer s) = of_nat (length (filter in_flight (workers s))) \<and>
    (workerCount < 2 ^ 32 \<longrightarrow>
       unat (active (fixer s)) = length (filter in_flight (workers s))) \<and>
    (fixServer_step handleChain i s = Returns s' \<longrightarrow>
       active (fixer s') =
         (case workers s ! i of
            Received fix \<Rightarrow> active (fixer s) + 1
          | Finishing \<Rightarrow> active (fixer s) + 4294967295
          | _ \<Rightarrow> active (fixer s))) \<and>
    (i < length (workers s) \<and> workers s ! i = Received fix \<and>
     handleChain fix (urlCache s) = (cs, es, k) \<longrightarrow>
       (\<exists>t. run handleChain (job_steps i cs es) s = Returns t \<and>
            workers t ! i = Receiving \<and> active (fixer t) = active (fixer s)))"
proof -
  let ?n = "length (filter in_flight (workers s))"
  from run_balanced [OF assms] have a: "active (fixer s) = of_nat ?n"
    by (simp add: balanced_def sum_list_flying)
  have b: "unat (active (fixer s)) = ?n" if "workerCount < 2 ^ 32"
  proof -
    from run_frame(1) [OF assms] have "length (workers s) = nat workerCount"
      by (simp add: NewFixer_eq)
    moreover have "?n \<le> length (workers s)" by simp
    ultimately have "?n < 2 ^ 32" using that by (simp add: nat_less_iff)
    then have "unat (of_nat ?n :: 32 word) = ?n"
      by (simp add: unat_of_nat)
    with a show ?thesis by simp
  qed
  have c: "\<exists>t. run handleChain (job_steps i cs es) s = Returns t \<and>
            workers t ! i = Receiving \<and> active (fixer t) = active (fixer s)"
    if "i < length (workers s)" "workers s ! i = Received fix"
      "handleChain fix (urlCache s) = (cs, es, k)"
    using run_job(6) [of i s "fix" handleChain cs es k, OF that] that(1)
    by (simp add: job_steps_def worker_at_def add_active_def send_chains_def send_errors_def
        count_errors_def call_handleChain_def that(3))
  show ?thesis using a b c fixServer_step_active [of handleChain i s s'] by blast
qed

theorem active_counter_witness:
  "\<exists>s t. run rejecting [Queue 1 [1, 2] 9 0, Work 0, Queue 3 [3] 9 1] (NewFixer 2 () False) =
            Returns s \<and>
     active (fixer s) = 1 \<and> length (filter in_flight (workers s)) = 1 \<and>
     unat (active (fixer s)) = 1 \<and>
     run rejecting
       (job_steps 1 []
          [\<lparr>Type = VerifyFailed, Detail = ''no path to a root''\<rparr>,
           \<lparr>Type = FixFailed, Detail = ''no candidate left''\<rparr>]) s = Returns t \<and>
     workers t ! 1 = Receiving \<and> active (fixer t) = 1"
proof -
  let ?job = "\<lparr>cert = 1, chain = [1, 2], roots = 9, cache = TheURLCache\<rparr> :: (nat, nat) toFix"
  let ?job' = "\<lparr>cert = 3, chain = [3], roots = 9, cache = TheURLCache\<rparr> :: (nat, nat) toFix"
  let ?es = "[\<lparr>Type = VerifyFailed, Detail = ''no path to a root''\<rparr>,
              \<lparr>Type = FixFailed, Detail = ''no candidate left''\<rparr>]"
  have "case run rejecting [Queue 1 [1, 2] 9 0, Work 0, Queue 3 [3] 9 1] (NewFixer 2 () False) of
          Returns s \<Rightarrow> workers s = [Handling ?job, Received ?job']
        | _ \<Rightarrow> False"
    by code_simp
  then obtain s where
    s: "run rejecting [Queue 1 [1, 2] 9 0, Work 0, Queue 3 [3] 9 1] (NewFixer 2 () False) = Returns s"
    and w: "workers s = [Handling ?job, Received ?job']"
    by (auto split: outcome.splits)
  from w have h: "1 < length (workers s)" "workers s ! 1 = Received ?job'" by simp_all
  from w have n: "length (filter in_flight (workers s)) = 1" by simp
  have r: "rejecting ?job' (urlCache s) = ([], ?es, urlCache s)"
    by (simp add: rejecting_def)
  note a = active_counter [OF s, of 1 s ?job' "[]" ?es "urlCache s"]
  from a n have a1: "active (fixer s) = 1" by simp
  from a n have a2: "unat (active (fixer s)) = 1" by simp
  from a h r obtain t where t: "run rejecting (job_steps 1 [] ?es) s = Returns t"
    and t1: "workers t ! 1 = Receiving" and t2: "active (fixer t) = active (fixer s)"
    by blast
  from t2 a1 have t3: "active (fixer t) = 1" by simp
  show ?thesis by (intro exI [of _ s] exI [of _ t] conjI) (rule s a1 n a2 t t1 t3)+
qed

subsection \<open>Wait\<close>

lemma exec_wait_sound:
  "wait_sound s \<Longrightarrow> exec handleChain a s = Returns s' \<Longrightarrow> wait_sound s'"
  by (cases a; auto simp: wait_sound_def step_defs split: if_splits worker.splits list.splits prod.splits option.splits)

lemma run_wait_sound:
  "run handleChain as (NewFixer workerCount k0 stats) = Returns s \<Longrightarrow> wait_sound s"
  by (rule run_invariant [where P = wait_sound, OF exec_wait_sound])
    (simp_all add: wait_sound_def NewFixer_eq)

lemma all_exited:
  "sum_list (map alive ws) = 0 \<Longrightarrow> w \<in> set ws \<Longrightarrow> w = Exited"
  by (induction ws) (auto simp: alive_def split: if_splits)

lemma sum_list_all_zero:
  fixes g :: "'w \<Rightarrow> 'a::comm_monoid_add"
  shows "(\<And>w. w \<in> set ws \<Longrightarrow> g w = 0) \<Longrightarrow> sum_list (map g ws) = 0"
  by (induction ws) simp_all

lemma exec_waiter:
  assumes "exec handleChain a s = Returns s'"
  shows "waiter s' =
    (if a = WaitClose then WaitingForWorkers
     else if a = WaitReturn then WaitReturned else waiter s)"
    and "a = WaitReturn \<Longrightarrow> waiter s = WaitingForWorkers"
  using assms
  by (cases a; auto simp: step_defs split: if_splits worker.splits list.splits prod.splits option.splits)+

lemma close_before_return:
  assumes "run handleChain as s0 = Returns s" and "waiter s = WaitReturned"
  shows "(waiter s0 = NotCalled \<longrightarrow>
            (\<exists>pre mid post. as = pre @ WaitClose # mid @ WaitReturn # post \<and>
               WaitReturn \<notin> set pre)) \<and>
         (waiter s0 = WaitingForWorkers \<longrightarrow>
            (\<exists>mid post. as = mid @ WaitReturn # post))"
  using assms
proof (induction as arbitrary: s0)
  case Nil
  then show ?case by simp
next
  case (Cons a as)
  from Cons.prems(1) obtain t where t: "exec handleChain a s0 = Returns t"
    and r: "run handleChain as t = Returns s"
    by (auto split: outcome.splits)
  note IH = Cons.IH [OF r Cons.prems(2)]
  note w = exec_waiter [OF t]
  show ?case
  proof (intro conjI impI)
    assume n: "waiter s0 = NotCalled"
    show "\<exists>pre mid post. a # as = pre @ WaitClose # mid @ WaitReturn # post \<and>
        WaitReturn \<notin> set pre"
    proof (cases "a = WaitClose")
      case True
      with w(1) have "waiter t = WaitingForWorkers" by simp
      with IH obtain mid post where "as = mid @ WaitReturn # post" by blast
      with True have "a # as = [] @ WaitClose # mid @ WaitReturn # post \<and> WaitReturn \<notin> set []"
        by simp
      then show ?thesis by blast
    next
      case False
      with w n have nr: "a \<noteq> WaitReturn" by auto
      with False w(1) n have "waiter t = NotCalled" by simp
      with IH obtain pre mid post where "as = pre @ WaitClose # mid @ WaitReturn # post"
        and "WaitReturn \<notin> set pre" by blast
      with nr have "a # as = (a # pre) @ WaitClose # mid @ WaitReturn # post \<and>
          WaitReturn \<notin> set (a # pre)" by simp
      then show ?thesis by blast
    qed
  next
    assume ww: "waiter s0 = WaitingForWorkers"
    show "\<exists>mid post. a # as = mid @ WaitReturn # post"
    proof (cases "a = WaitReturn")
      case True
      then have "a # as = [] @ WaitReturn # as" by simp
      then show ?thesis by blast
    next
      case False
      with w(1) ww have "waiter t = WaitingForWorkers" by (simp split: if_splits)
      with IH obtain mid post where "as = mid @ WaitReturn # post" by blast
      then have "a # as = (a # mid) @ WaitReturn # post" by simp
      then show ?thesis by blast
    qed
  qed
qed

text \<open>
  C3. In every run in which \<^verbatim>\<open>Wait\<close> has returned, the close of the input queue came
  first and the return later. At the return the queue is closed and empty, every worker
  has left its loop, every job handed over by \<^verbatim>\<open>QueueChain\<close> has been handled, and
  every chain and every FixError that \<^verbatim>\<open>handleChain\<close> returned for these jobs has been
  sent on its output channel.
\<close>

theorem Wait_returns_after_all_outputs:
  assumes "run handleChain as (NewFixer workerCount k0 stats) = Returns s"
    and "waiter s = WaitReturned"
  shows "(\<exists>pre mid post. as = pre @ WaitClose # mid @ WaitReturn # post \<and>
            WaitReturn \<notin> set pre) \<and>
    closed (toFix (fixer s)) \<and> buf (toFix (fixer s)) = [] \<and>
    (\<forall>w \<in> set (workers s). w = Exited) \<and>
    mset (handled s) = mset (queued s) \<and>
    mset (errors (fixer s)) = mset (produced_errors s) \<and>
    mset (chains (fixer s)) = mset (produced_chains s)"
proof -
  from close_before_return [OF assms]
  have order: "\<exists>pre mid post. as = pre @ WaitClose # mid @ WaitReturn # post \<and>
      WaitReturn \<notin> set pre"
    by (simp add: NewFixer_eq)
  from run_wait_sound [OF assms(1)] assms(2)
  have c: "closed (toFix (fixer s))" and z: "wg (fixer s) = 0"
    by (simp_all add: wait_sound_def)
  from run_unbuffered [OF assms(1)] have b: "buf (toFix (fixer s)) = []"
    by (simp add: unbuffered_def)
  note bal = run_balanced [OF assms(1), unfolded balanced_def]
  from bal z have "sum_list (map alive (workers s)) = 0" by simp
  then have ex: "w = Exited" if "w \<in> set (workers s)" for w
    using that by (rule all_exited)
  have idle: "pending_errors w = [] \<and> pending_chains w = [] \<and> holding w = []"
    if "w \<in> set (workers s)" for w
    using ex [OF that] by simp
  have "sum_list (map (\<lambda>w. mset (pending_errors w)) (workers s)) = {#}"
    by (rule sum_list_all_zero) (simp add: idle)
  moreover have "sum_list (map (\<lambda>w. mset (pending_chains w)) (workers s)) = {#}"
    by (rule sum_list_all_zero) (simp add: idle)
  moreover have "sum_list (map (\<lambda>w. mset (holding w)) (workers s)) = {#}"
    by (rule sum_list_all_zero) (simp add: idle)
  ultimately have "mset (handled s) = mset (queued s)"
    "mset (errors (fixer s)) = mset (produced_errors s)"
    "mset (chains (fixer s)) = mset (produced_chains s)"
    using bal b by simp_all
  with order c b ex show ?thesis by blast
qed

theorem Wait_returns_after_all_outputs_witness:
  "\<exists>s. run accepting
          ([Queue 1 [1, 2] 9 0] @ job_steps 0 [[1, 2]] [] @ [WaitClose, Work 0, WaitReturn])
          (NewFixer 1 () False) = Returns s \<and>
     waiter s = WaitReturned \<and> closed (toFix (fixer s)) \<and> workers s = [Exited] \<and>
     queued s = [\<lparr>cert = 1, chain = [1, 2], roots = 9, cache = TheURLCache\<rparr>] \<and>
     mset (handled s) = mset (queued s) \<and>
     produced_chains s = [[1, 2]] \<and>
     mset (chains (fixer s)) = mset (produced_chains s) \<and>
     mset (errors (fixer s)) = mset (produced_errors s)"
proof -
  let ?job = "\<lparr>cert = 1, chain = [1, 2], roots = 9, cache = TheURLCache\<rparr> :: (nat, nat) toFix"
  let ?as = "[Queue 1 [1, 2] 9 0] @ job_steps 0 [[1, 2]] [] @ [WaitClose, Work 0, WaitReturn]
    :: (nat, nat) action list"
  have "case run accepting ?as (NewFixer 1 () False) of
          Returns s \<Rightarrow> waiter s = WaitReturned \<and> workers s = [Exited] \<and>
            queued s = [?job] \<and> produced_chains s = [[1, 2]]
        | _ \<Rightarrow> False"
    by code_simp
  then obtain s where s: "run accepting ?as (NewFixer 1 () False) = Returns s"
    and w: "waiter s = WaitReturned" and e: "workers s = [Exited]"
    and q: "queued s = [?job]" and p: "produced_chains s = [[1, 2]]"
    by (auto split: outcome.splits)
  note c = Wait_returns_after_all_outputs [OF s w]
  from c have c1: "closed (toFix (fixer s))" by blast
  from c have c2: "mset (handled s) = mset (queued s)" by blast
  from c have c3: "mset (chains (fixer s)) = mset (produced_chains s)" by blast
  from c have c4: "mset (errors (fixer s)) = mset (produced_errors s)" by blast
  show ?thesis by (intro exI [of _ s] conjI) (rule s w c1 e q c2 p c3 c4)+
qed

subsection \<open>Submitting the same job twice\<close>

text \<open>
  C5, as the claim states it: a second submission of the same certificate, chain and
  root pool is found in the set of processed jobs, increments \<open>skipped\<close> and produces no
  output. In fixer.go nothing reads or writes \<^verbatim>\<open>f.done\<close> or writes \<^verbatim>\<open>f.skipped\<close>, and
  the job is given no pointer to either: the second job is handed to \<^verbatim>\<open>handleChain\<close>
  like the first. In this run the same triple is submitted twice; \<open>skipped\<close> stays 0,
  \<open>done_map\<close> stays empty, \<^verbatim>\<open>handleChain\<close> is called for both jobs, and for a
  \<^verbatim>\<open>handleChain\<close> that depends on the job alone the chain is published twice.
\<close>

theorem resubmission_counterexample:
  "run accepting
     ([Queue 1 [1, 2] 9 0] @ job_steps 0 [[1, 2]] [] @
      [Queue 1 [1, 2] 9 0] @ job_steps 0 [[1, 2]] [])
     (NewFixer 1 () False) =
   Returns
     \<lparr>fixer = \<lparr>toFix = \<lparr>cap = 0, buf = [], closed = False\<rparr>,
                chains = [[1, 2], [1, 2]], errors = [], active = 0,
                reconstructed = 2, notReconstructed = 0, fixed = 0, notFixed = 0,
                skipped = 0, alreadyDone = 0, wg = 1,
                cache = TheURLCache, done_map = {}\<rparr>,
       workers = [Receiving],
       urlCache = (), ticker = None, logged = [], waiter = NotCalled,
       queued = [\<lparr>cert = 1, chain = [1, 2], roots = 9, cache = TheURLCache\<rparr>,
                 \<lparr>cert = 1, chain = [1, 2], roots = 9, cache = TheURLCache\<rparr>],
       handled = [\<lparr>cert = 1, chain = [1, 2], roots = 9, cache = TheURLCache\<rparr>,
                  \<lparr>cert = 1, chain = [1, 2], roots = 9, cache = TheURLCache\<rparr>],
       produced_chains = [[1, 2], [1, 2]], produced_errors = []\<rparr>"
  by code_simp

text \<open>
  C5, amended: submitting the same certificate, chain and root pool twice hands two
  equal jobs to the workers, and the second is treated like the first: whatever has
  been handled before, the worker calls \<^verbatim>\<open>handleChain\<close> for the job and publishes all
  that this call returns. In every state the system reaches, \<open>skipped\<close> and
  \<open>alreadyDone\<close> are 0 and the set \<^verbatim>\<open>done\<close> is empty. Whether the second call returns
  any output is left to \<^verbatim>\<open>handleChain\<close>.
\<close>

theorem resubmission_is_handled:
  fixes s :: "('c, 'r, 'k) system"
  assumes "run handleChain as (NewFixer workerCount k0 stats) = Returns s"
  shows "skipped (fixer s) = 0 \<and> alreadyDone (fixer s) = 0 \<and> done_map (fixer s) = {} \<and>
    (QueueChain c ch r i s = Returns s' \<longrightarrow>
       workers s' ! i =
         Received \<lparr>cert = c, chain = newDedupedChain ch, roots = r, cache = TheURLCache\<rparr> \<and>
       skipped (fixer s') = 0 \<and> done_map (fixer s') = {}) \<and>
    (i < length (workers s) \<and> workers s ! i = Received fix \<and>
     handleChain fix (urlCache s) = (cs, es, k) \<longrightarrow>
       (\<exists>t. run handleChain (job_steps i cs es) s = Returns t \<and>
            handled t = handled s @ [fix] \<and>
            errors (fixer t) = errors (fixer s) @ es \<and>
            chains (fixer t) = chains (fixer s) @ cs \<and>
            skipped (fixer t) = 0 \<and> done_map (fixer t) = {}))"
proof -
  from run_frame(3-5) [OF assms]
  have z: "skipped (fixer s) = 0" "alreadyDone (fixer s) = 0" "done_map (fixer s) = {}"
    by (simp_all add: NewFixer_eq)
  have q: "workers s' ! i =
         Received \<lparr>cert = c, chain = newDedupedChain ch, roots = r, cache = TheURLCache\<rparr> \<and>
       skipped (fixer s') = 0 \<and> done_map (fixer s') = {}"
    if "QueueChain c ch r i s = Returns s'"
  proof -
    from run_unbuffered [OF assms] have u: "cap (toFix (fixer s)) = 0"
      by (simp add: unbuffered_def)
    from run_frame(6) [OF assms] have "Fixer.cache (fixer s) = TheURLCache"
      by (simp add: NewFixer_eq)
    with that u z show ?thesis
      by (auto simp: QueueChain_def Let_def split: if_splits)
  qed
  have j: "\<exists>t. run handleChain (job_steps i cs es) s = Returns t \<and>
            handled t = handled s @ [fix] \<and>
            errors (fixer t) = errors (fixer s) @ es \<and>
            chains (fixer t) = chains (fixer s) @ cs \<and>
            skipped (fixer t) = 0 \<and> done_map (fixer t) = {}"
    if h: "i < length (workers s)" "workers s ! i = Received fix"
      "handleChain fix (urlCache s) = (cs, es, k)"
  proof (intro exI conjI)
    let ?t = "worker_at i Receiving (add_active (NOT 0) (send_chains cs (send_errors es
        (count_errors es (call_handleChain handleChain fix (add_active 1 s))))))"
    show "run handleChain (job_steps i cs es) s = Returns ?t"
      unfolding job_steps_def by (rule run_job(6) [of i s "fix" handleChain cs es k, OF h])
    show "handled ?t = handled s @ [fix]"
      by (simp add: worker_at_def add_active_def send_chains_def send_errors_def count_errors_def
          call_handleChain_def h(3))
    show "errors (fixer ?t) = errors (fixer s) @ es"
      unfolding fixer_after_job by simp
    show "chains (fixer ?t) = chains (fixer s) @ cs"
      unfolding fixer_after_job by simp
    show "skipped (fixer ?t) = 0"
      unfolding fixer_after_job by (simp add: z)
    show "done_map (fixer ?t) = {}"
      unfolding fixer_after_job by (simp add: z)
  qed
  from z q j show ?thesis by blast
qed

theorem resubmission_is_handled_witness:
  "\<exists>s t. run accepting ([Queue 1 [1, 2] 9 0] @ job_steps 0 [[1, 2]] [] @ [Queue 1 [1, 2] 9 0])
            (NewFixer 1 () False) = Returns s \<and>
     handled s = [\<lparr>cert = 1, chain = [1, 2], roots = 9, cache = TheURLCache\<rparr>] \<and>
     chains (fixer s) = [[1, 2]] \<and> skipped (fixer s) = 0 \<and> done_map (fixer s) = {} \<and>
     run accepting (job_steps 0 [[1, 2]] []) s = Returns t \<and>
     handled t = [\<lparr>cert = 1, chain = [1, 2], roots = 9, cache = TheURLCache\<rparr>,
                  \<lparr>cert = 1, chain = [1, 2], roots = 9, cache = TheURLCache\<rparr>] \<and>
     chains (fixer t) = [[1, 2], [1, 2]] \<and> skipped (fixer t) = 0 \<and> done_map (fixer t) = {}"
proof -
  let ?job = "\<lparr>cert = 1, chain = [1, 2], roots = 9, cache = TheURLCache\<rparr> :: (nat, nat) toFix"
  let ?as = "[Queue 1 [1, 2] 9 0] @ job_steps 0 [[1, 2]] [] @ [Queue 1 [1, 2] 9 0]
    :: (nat, nat) action list"
  have "case run accepting ?as (NewFixer 1 () False) of
          Returns s \<Rightarrow> workers s = [Received ?job] \<and> handled s = [?job] \<and>
            chains (fixer s) = [[1, 2]] \<and> errors (fixer s) = []
        | _ \<Rightarrow> False"
    by code_simp
  then obtain s where s: "run accepting ?as (NewFixer 1 () False) = Returns s"
    and w: "workers s = [Received ?job]" and hd: "handled s = [?job]"
    and ch: "chains (fixer s) = [[1, 2]]"
    by (auto split: outcome.splits)
  from w have h: "0 < length (workers s)" "workers s ! 0 = Received ?job" by simp_all
  have r: "accepting ?job (urlCache s) = ([[1, 2]], [], urlCache s)"
    by (simp add: accepting_def)
  note c = resubmission_is_handled [OF s, of _ _ _ 0 _ ?job "[[1, 2]]" "[]" "urlCache s"]
  from c have z1: "skipped (fixer s) = 0" and z2: "done_map (fixer s) = {}" by blast+
  from c h r obtain t where t: "run accepting (job_steps 0 [[1, 2]] []) s = Returns t"
    and t1: "handled t = handled s @ [?job]"
    and t2: "chains (fixer t) = chains (fixer s) @ [[1, 2]]"
    and t3: "skipped (fixer t) = 0" and t4: "done_map (fixer t) = {}"
    by blast
  from t1 hd have t1': "handled t = [?job, ?job]" by simp
  from t2 ch have t2': "chains (fixer t) = [[1, 2], [1, 2]]" by simp
  show ?thesis
    by (intro exI [of _ s] exI [of _ t] conjI) (rule s hd ch z1 z2 t t1' t2' t3 t4)+
qed

subsection \<open>Deduplicated chains\<close>

lemma newDedupedChain_remdups_adj: "newDedupedChain xs = remdups_adj xs"
  by (induction xs rule: newDedupedChain.induct) simp_all

lemma newDedupedChain_adjacent:
  "Suc j < length (newDedupedChain xs) \<Longrightarrow> newDedupedChain xs ! j \<noteq> newDedupedChain xs ! Suc j"
  by (simp add: newDedupedChain_remdups_adj remdups_adj_adjacent)

lemma newDedupedChain_idem: "newDedupedChain (newDedupedChain xs) = newDedupedChain xs"
  using distinct_adj_remdups_adj [of xs]
  by (simp add: newDedupedChain_remdups_adj distinct_adj_altdef)

lemma exec_queued_deduplicated:
  assumes "\<forall>fix \<in> set (queued s). deduplicated (chain fix)"
    and "exec handleChain a s = Returns s'"
  shows "\<forall>fix \<in> set (queued s'). deduplicated (chain fix)"
  using assms
  by (cases a; auto simp: step_defs deduplicated_def newDedupedChain_adjacent
      split: if_splits worker.splits list.splits prod.splits option.splits)

text \<open>
  C6. \<^verbatim>\<open>QueueChain\<close> deduplicates the chain when it builds the job, before the send:
  every job ever handed over carries a chain with no two adjacent equal entries. A chain
  with consecutive duplicates gives the same result as the chain with the duplicates
  removed first: the call of \<^verbatim>\<open>QueueChain\<close> has the same outcome, and so has every run
  that follows it.
\<close>

theorem chains_deduplicated_on_entry:
  assumes "run handleChain as (NewFixer workerCount k0 stats) = Returns s"
  shows "(\<forall>fix \<in> set (queued s). deduplicated (chain fix)) \<and>
    QueueChain c ch r i s = QueueChain c (newDedupedChain ch) r i s \<and>
    run handleChain (Queue c ch r i # rest) s =
      run handleChain (Queue c (newDedupedChain ch) r i # rest) s"
proof -
  have "\<forall>fix \<in> set (queued s). deduplicated (chain fix)"
    by (rule run_invariant [where P = "\<lambda>s. \<forall>fix \<in> set (queued s). deduplicated (chain fix)",
          OF exec_queued_deduplicated _ assms])
      (simp_all add: NewFixer_eq)
  moreover have "QueueChain c ch r i s = QueueChain c (newDedupedChain ch) r i s"
    by (simp add: QueueChain_def newDedupedChain_idem)
  ultimately show ?thesis by simp
qed

theorem chains_deduplicated_on_entry_witness:
  "\<exists>s. run accepting [Queue 1 [1, 1, 2, 2, 2, 1] 9 0] (NewFixer 1 () False) = Returns s \<and>
     map chain (queued s) = [[1, 2, 1]] \<and>
     (\<forall>fix \<in> set (queued s). deduplicated (chain fix)) \<and>
     run accepting [Queue 1 [1, 1, 2, 2, 2, 1] 9 0] (NewFixer 1 () False) =
     run accepting [Queue 1 [1, 2, 1] 9 0] (NewFixer 1 () False)"
proof -
  have "case run accepting [Queue 1 [1, 1, 2, 2, 2, 1] 9 0] (NewFixer 1 () False) of
          Returns s \<Rightarrow> map chain (queued s) = [[1, 2, 1]] | _ \<Rightarrow> False"
    by code_simp
  then obtain s where s: "run accepting [Queue 1 [1, 1, 2, 2, 2, 1] 9 0] (NewFixer 1 () False) = Returns s"
    and q: "map chain (queued s) = [[1, 2, 1]]"
    by (auto split: outcome.splits)
  have s0: "run accepting [] (NewFixer 1 () False) = Returns (NewFixer 1 () False)" by simp
  have n: "newDedupedChain [1, 1, 2, 2, 2, 1::nat] = [1, 2, 1]" by simp
  from chains_deduplicated_on_entry [OF s]
  have d: "\<forall>fix \<in> set (queued s). deduplicated (chain fix)" by simp
  from chains_deduplicated_on_entry [OF s0, of 1 "[1, 1, 2, 2, 2, 1]" 9 0 "[]"] n
  have e: "run accepting [Queue 1 [1, 1, 2, 2, 2, 1] 9 0] (NewFixer 1 () False) =
     run accepting [Queue 1 [1, 2, 1] 9 0] (NewFixer 1 () False)" by simp
  show ?thesis by (intro exI [of _ s] conjI) (rule s q d e)+
qed

subsection \<open>The statistics task\<close>

text \<open>
  C8, as the claim states it: the task that logs the statistics is stopped as part of
  \<^verbatim>\<open>Wait\<close>. It is not: in this run \<^verbatim>\<open>Wait\<close> has returned and the only worker has
  left its loop; the ticker is still there, and the tick that follows logs a line.
\<close>

theorem reporter_after_Wait_counterexample:
  "run accepting [WaitClose, Work 0, WaitReturn, Tick] (NewFixer 1 () True) =
   Returns
     \<lparr>fixer = \<lparr>toFix = \<lparr>cap = 0, buf = [], closed = True\<rparr>,
                chains = [], errors = [], active = 0,
                reconstructed = 0, notReconstructed = 0, fixed = 0, notFixed = 0,
                skipped = 0, alreadyDone = 0, wg = 0,
                cache = TheURLCache, done_map = {}\<rparr>,
       workers = [Exited],
       urlCache = (), ticker = Some 1000000000, logged = [(0, 0, 0, 0, 0, 0, 0)],
       waiter = WaitReturned,
       queued = [], handled = [], produced_chains = [], produced_errors = []\<rparr>"
  by code_simp

lemma exec_logged:
  "a \<noteq> Tick \<Longrightarrow>
   exec handleChain a (s\<lparr>logged := l\<rparr>) =
     map_outcome (\<lambda>t. t\<lparr>logged := l\<rparr>) (exec handleChain a s)"
  by (cases a; simp add: step_defs split: worker.splits list.splits prod.splits)

text \<open>
  C8, amended: when the statistics are enabled at construction, a ticker of period
  one second is started at construction, and at each of its ticks a task logs the seven
  counters. In every state the system reaches, also after \<^verbatim>\<open>Wait\<close> has returned, a
  tick can be taken whatever the workers are doing, and it changes nothing but the log,
  so every other step does after it what it did before. Nothing stops the task. With
  the statistics disabled there is no ticker and no tick. (Time is not modelled: the
  period is a value of the state.)
\<close>

theorem reporter_never_stops:
  fixes s :: "('c, 'r, 'k) system"
  assumes "run handleChain as (NewFixer workerCount k0 stats) = Returns s"
  shows "ticker s = (if stats then Some 1000000000 else None) \<and>
    logStats_tick s =
      (if stats then Returns (s\<lparr>logged := logged s @ [stats_line (fixer s)]\<rparr>) else Blocks) \<and>
    (a \<noteq> Tick \<longrightarrow>
       exec handleChain a (s\<lparr>logged := logged s @ [stats_line (fixer s)]\<rparr>) =
         map_outcome (\<lambda>t. t\<lparr>logged := logged s @ [stats_line (fixer s)]\<rparr>)
           (exec handleChain a s))"
proof -
  from run_frame(2) [OF assms]
  have t: "ticker s = (if stats then Some 1000000000 else None)"
    by (simp add: NewFixer_eq)
  then show ?thesis by (simp add: logStats_tick_def exec_logged)
qed

theorem reporter_never_stops_witness:
  "\<exists>s. run accepting [WaitClose, Work 0, WaitReturn] (NewFixer 1 () True) = Returns s \<and>
     waiter s = WaitReturned \<and> ticker s = Some 1000000000 \<and>
     logStats_tick s = Returns (s\<lparr>logged := logged s @ [stats_line (fixer s)]\<rparr>)"
proof -
  have "case run accepting [WaitClose, Work 0, WaitReturn] (NewFixer 1 () True) of
          Returns s \<Rightarrow> waiter s = WaitReturned | _ \<Rightarrow> False"
    by code_simp
  then obtain s where s: "run accepting [WaitClose, Work 0, WaitReturn] (NewFixer 1 () True) = Returns s"
    and w: "waiter s = WaitReturned"
    by (auto split: outcome.splits)
  note c = reporter_never_stops [OF s, of Tick]
  from c have c1: "ticker s = Some 1000000000" by simp
  from c have c2: "logStats_tick s = Returns (s\<lparr>logged := logged s @ [stats_line (fixer s)]\<rparr>)"
    by simp
  show ?thesis by (intro exI [of _ s] conjI) (rule s w c1 c2)+
qed

end
